theory Spec2Isabelle
  imports Main "HOL-Library.Monad_Syntax"
begin

section \<open>Python strings\<close>

text \<open>
  A Python \<open>str\<close> is a sequence of Unicode code points. The module works with
  characters beyond Latin-1 (the closing quote U+201D), so a string is a list of code
  points and \<open>length\<close> counts what Python's \<open>len\<close> counts.
\<close>

type_synonym ustring = "nat list"

text \<open>An ASCII literal, written as an Isabelle string.\<close>

definition str :: "string \<Rightarrow> ustring" where
  "str s = map of_char s"

text \<open>
  The characters \<open>str.strip()\<close> removes and \<open>\s\<close> matches in a \<open>str\<close> pattern:
  CPython's \<open>Py_UNICODE_ISSPACE\<close>.
\<close>

definition isspace :: "nat \<Rightarrow> bool" where
  "isspace c \<longleftrightarrow>
     (9 \<le> c \<and> c \<le> 13) \<or> (28 \<le> c \<and> c \<le> 32) \<or> c = 133 \<or> c = 160 \<or> c = 5760 \<or>
     (8192 \<le> c \<and> c \<le> 8202) \<or> c = 8232 \<or> c = 8233 \<or> c = 8239 \<or> c = 8287 \<or> c = 12288"

text \<open>\<open>s.startswith(p)\<close>\<close>

fun startswith :: "ustring \<Rightarrow> ustring \<Rightarrow> bool" where
  "startswith [] s = True"
| "startswith (p # ps) [] = False"
| "startswith (p # ps) (c # cs) = (p = c \<and> startswith ps cs)"

text \<open>\<open>sub in s\<close>\<close>

fun contains :: "ustring \<Rightarrow> ustring \<Rightarrow> bool" where
  "contains sub [] = (sub = [])"
| "contains sub (c # cs) = (startswith sub (c # cs) \<or> contains sub cs)"

text \<open>
  \<open>s.replace(old, new)\<close>: the occurrences of \<open>old\<close> are found from the left and do not
  overlap; an empty \<open>old\<close> matches between all characters.
\<close>

function replace :: "ustring \<Rightarrow> ustring \<Rightarrow> ustring \<Rightarrow> ustring" where
  "replace old new [] = (if old = [] then new else [])"
| "replace old new (c # cs) =
     (if old = [] then new @ c # replace old new cs
      else if startswith old (c # cs) then new @ replace old new (drop (length old) (c # cs))
      else c # replace old new cs)"
  by pat_completeness auto
termination
  by (relation "measure (\<lambda>(old, new, s). length s)") auto

text \<open>
  \<open>s.split(sep)\<close> for a non-empty separator (the only use in the module is the
  constant \<open><stop>\<close>): the pieces between the occurrences of \<open>sep\<close>, at least one.
\<close>

function split :: "ustring \<Rightarrow> ustring \<Rightarrow> ustring list" where
  "split sep [] = [[]]"
| "split sep (c # cs) =
     (if sep \<noteq> [] \<and> startswith sep (c # cs) then [] # split sep (drop (length sep) (c # cs))
      else (case split sep cs of
              p # ps \<Rightarrow> (c # p) # ps
            | [] \<Rightarrow> [[c]]))"
  by pat_completeness auto
termination
  by (relation "measure (\<lambda>(sep, s). length s)") auto

text \<open>\<open>s.strip()\<close>\<close>

definition strip :: "ustring \<Rightarrow> ustring" where
  "strip s = rev (dropWhile isspace (rev (dropWhile isspace s)))"

section \<open>Regular expressions\<close>

text \<open>
  The fragment of Python's \<open>re\<close> syntax the module's patterns are written in: literal
  characters, character classes, \<open>\s\<close>, concatenation, ordered alternation, the greedy
  \<open>?\<close>, capturing groups, and the greedy \<open>c{n,}\<close> on a literal character.
\<close>

datatype regex =
    Eps
  | Chr nat
  | Cls "(nat \<times> nat) list"
  | Space
  | Cat regex regex
  | Alt regex regex
  | Opt regex
  | Grp regex
  | AtLeast nat nat

fun in_ranges :: "(nat \<times> nat) list \<Rightarrow> nat \<Rightarrow> bool" where
  "in_ranges [] c = False"
| "in_ranges ((lo, hi) # rs) c = ((lo \<le> c \<and> c \<le> hi) \<or> in_ranges rs c)"

fun ngroups :: "regex \<Rightarrow> nat" where
  "ngroups (Cat a b) = ngroups a + ngroups b"
| "ngroups (Alt a b) = ngroups a + ngroups b"
| "ngroups (Opt a) = ngroups a"
| "ngroups (Grp a) = Suc (ngroups a)"
| "ngroups _ = 0"

text \<open>
  The backtracking matcher: every way the pattern matches a prefix of the text, in the
  order the engine tries them, each with the groups it captured (numbered by their
  opening parenthesis; a group that took no part is \<open>None\<close>) and the text that is left.
  The engine's match is the first one.
\<close>

fun matches :: "regex \<Rightarrow> ustring \<Rightarrow> (ustring option list \<times> ustring) list" where
  "matches Eps s = [([], s)]"
| "matches (Chr c) s = (case s of [] \<Rightarrow> [] | x # xs \<Rightarrow> if x = c then [([], xs)] else [])"
| "matches (Cls rs) s =
     (case s of [] \<Rightarrow> [] | x # xs \<Rightarrow> if in_ranges rs x then [([], xs)] else [])"
| "matches Space s = (case s of [] \<Rightarrow> [] | x # xs \<Rightarrow> if isspace x then [([], xs)] else [])"
| "matches (Cat a b) s =
     concat (map (\<lambda>(g1, r1). map (\<lambda>(g2, r2). (g1 @ g2, r2)) (matches b r1)) (matches a s))"
| "matches (Alt a b) s =
     map (\<lambda>(g, r). (g @ replicate (ngroups b) None, r)) (matches a s) @
     map (\<lambda>(g, r). (replicate (ngroups a) None @ g, r)) (matches b s)"
| "matches (Opt a) s = matches a s @ [(replicate (ngroups a) None, s)]"
| "matches (Grp a) s =
     map (\<lambda>(g, r). (Some (take (length s - length r) s) # g, r)) (matches a s)"
| "matches (AtLeast n c) s =
     (let k = length (takeWhile (\<lambda>x. x = c) s)
      in map (\<lambda>j. ([], drop j s)) (rev [n..<Suc k]))"

text \<open>
  A replacement: the template string of \<open>re.sub\<close>, as its literal pieces and its group
  references \<open>\N\<close>, or a function of the match object.
\<close>

datatype titem = Lit ustring | Ref nat

text \<open>
  A match object, as far as the module reads it: group 0 (the whole match) and the
  numbered groups.
\<close>

type_synonym mobj = "ustring option list"

definition group :: "mobj \<Rightarrow> nat \<Rightarrow> ustring" where
  \<comment> \<open>In a template a group that took no part expands to the empty string.\<close>
  "group m n = (if n < length m then (case m ! n of Some g \<Rightarrow> g | None \<Rightarrow> []) else [])"

fun expand :: "titem list \<Rightarrow> mobj \<Rightarrow> ustring" where
  "expand [] m = []"
| "expand (Lit l # t) m = l @ expand t m"
| "expand (Ref n # t) m = group m n @ expand t m"

text \<open>
  \<open>re.sub\<close> parses the template before it searches; a reference to a group the pattern
  does not have raises \<open>re.error\<close> ("invalid group reference").
\<close>

fun template_ok :: "regex \<Rightarrow> titem list \<Rightarrow> bool" where
  "template_ok r [] = True"
| "template_ok r (Lit l # t) = template_ok r t"
| "template_ok r (Ref n # t) = (n \<le> ngroups r \<and> template_ok r t)"

text \<open>
  The scan of \<open>re.sub\<close>: at each position the first match of the pattern is replaced
  and the scan goes on behind it; where nothing matches the character is copied. An
  empty match is replaced and the scan moves one character on.
\<close>

function sub_scan :: "regex \<Rightarrow> (mobj \<Rightarrow> ustring) \<Rightarrow> ustring \<Rightarrow> ustring" where
  "sub_scan r f [] = (case matches r [] of [] \<Rightarrow> [] | (g, rest) # _ \<Rightarrow> f (Some [] # g))"
| "sub_scan r f (c # cs) =
     (case matches r (c # cs) of
        [] \<Rightarrow> c # sub_scan r f cs
      | (g, rest) # _ \<Rightarrow>
          if length rest < length (c # cs)
          then f (Some (take (length (c # cs) - length rest) (c # cs)) # g) @ sub_scan r f rest
          else f (Some [] # g) @ c # sub_scan r f cs)"
  by pat_completeness auto
termination
  by (relation "measure (\<lambda>(r, f, s). length s)") auto

text \<open>\<open>re.sub(pattern, template, text)\<close>; \<open>None\<close> is the exception \<open>re.error\<close>.\<close>

definition re_sub :: "regex \<Rightarrow> titem list \<Rightarrow> ustring \<Rightarrow> ustring option" where
  "re_sub r t s = (if template_ok r t then Some (sub_scan r (expand t) s) else None)"

text \<open>A literal word as a pattern, and the alternation and concatenation of a list.\<close>

fun word :: "ustring \<Rightarrow> regex" where
  "word [] = Eps"
| "word [c] = Chr c"
| "word (c # cs) = Cat (Chr c) (word cs)"

fun alts :: "regex list \<Rightarrow> regex" where
  "alts [] = Eps"
| "alts [r] = r"
| "alts (r # rs) = Alt r (alts rs)"

fun cats :: "regex list \<Rightarrow> regex" where
  "cats [] = Eps"
| "cats [r] = r"
| "cats (r # rs) = Cat r (cats rs)"

section \<open>The patterns of the module\<close>

text \<open>\<open>[.]\<close>\<close>

definition dot :: regex where
  "dot = Cls [(46, 46)]"

text \<open>\<open>_ALPHABETS = "([A-Za-z])"\<close>\<close>

definition ALPHABETS :: regex where
  "ALPHABETS = Grp (Cls [(65, 90), (97, 122)])"

text \<open>\<open>_PREFIXES = "(Herra|St|Rouva|Neiti|Dr)[.]"\<close>\<close>

definition PREFIXES :: regex where
  "PREFIXES =
     Cat (Grp (alts (map (word \<circ> str) [''Herra'', ''St'', ''Rouva'', ''Neiti'', ''Dr'']))) dot"

text \<open>\<open>_SUFFIXES = "(Inc|Ltd|Jr|Sr|Co|Oy)"\<close>\<close>

definition SUFFIXES :: regex where
  "SUFFIXES = Grp (alts (map (word \<circ> str) [''Inc'', ''Ltd'', ''Jr'', ''Sr'', ''Co'', ''Oy'']))"

text \<open>
  \<open>_STARTERS = r"(Herra|Rouva|Neiti|Tohtori|Profi|Kapteeni|Kpt|Luttn|H\"an\s|Se\s|He\s|Heid\"an\s|Meid\"an|Me\s|Mutta\s|Kuitenkin\s|T\"am\"a\s|Miss\"a tahansa)"\<close>,
  where \<open>\"a\<close> is the code point U+00E4 (228).
\<close>

definition STARTERS :: regex where
  "STARTERS = Grp (alts
     [word (str ''Herra''), word (str ''Rouva''), word (str ''Neiti''), word (str ''Tohtori''),
      word (str ''Profi''), word (str ''Kapteeni''), word (str ''Kpt''), word (str ''Luttn''),
      Cat (word (str ''H'' @ [228] @ str ''n'')) Space,
      Cat (word (str ''Se'')) Space,
      Cat (word (str ''He'')) Space,
      Cat (word (str ''Heid'' @ [228] @ str ''n'')) Space,
      word (str ''Meid'' @ [228] @ str ''n''),
      Cat (word (str ''Me'')) Space,
      Cat (word (str ''Mutta'')) Space,
      Cat (word (str ''Kuitenkin'')) Space,
      Cat (word (str ''T'' @ [228] @ str ''m'' @ [228])) Space,
      word (str ''Miss'' @ [228] @ str '' tahansa'')])"

text \<open>\<open>_ACRONYMS = "([A-Z][.][A-Z][.](?:[A-Z][.])?)"\<close>\<close>

definition ACRONYMS :: regex where
  "ACRONYMS =
     Grp (cats [Cls [(65, 90)], dot, Cls [(65, 90)], dot, Opt (Cat (Cls [(65, 90)]) dot)])"

text \<open>\<open>_WEBSITES = "[.](com|net|org|io|gov|edu|me|fi|eu)"\<close>\<close>

definition WEBSITES :: regex where
  "WEBSITES =
     Cat dot (Grp (alts (map (word \<circ> str)
       [''com'', ''net'', ''org'', ''io'', ''gov'', ''edu'', ''me'', ''fi'', ''eu''])))"

text \<open>\<open>_DIGITS = "([0-9])"\<close>\<close>

definition DIGITS :: regex where
  "DIGITS = Grp (Cls [(48, 57)])"

text \<open>\<open>_MULTIPLE_DOTS = r"\.{2,}"\<close>\<close>

definition MULTIPLE_DOTS :: regex where
  "MULTIPLE_DOTS = AtLeast 2 46"

section \<open>\<open>split_into_sentences\<close>\<close>

text \<open>
  The pass over the runs of periods:
  \<^verbatim>\<open>re.sub(_MULTIPLE_DOTS, lambda match: "<prd>" * len(match.group(0)) + "<stop>", text)\<close>
\<close>

definition ellipsis :: "ustring \<Rightarrow> ustring" where
  "ellipsis text =
     sub_scan MULTIPLE_DOTS
       (\<lambda>m. concat (replicate (length (group m 0)) (str ''<prd>'')) @ str ''<stop>'') text"

text \<open>
  The four guarded replacements that move a terminator behind a closing quote; U+201D
  (8221) is the curly closing quote, 34 the straight one.
\<close>

definition swap_quotes :: "ustring \<Rightarrow> ustring" where
  "swap_quotes text0 =
     (let text = (if contains [8221] text0
                  then replace (str ''.'' @ [8221]) (8221 # str ''.'') text0 else text0);
          text = (if contains [34] text then replace (str ''.'' @ [34]) (34 # str ''.'') text
                  else text);
          text = (if contains (str ''!'') text then replace (str ''!'' @ [34]) (34 # str ''!'') text
                  else text);
          text = (if contains (str ''?'') text then replace (str ''?'' @ [34]) (34 # str ''?'') text
                  else text)
      in text)"

text \<open>
  The function, line by line; \<open>None\<close> stands for an exception. Code point 10 is the
  newline.
\<close>

definition split_into_sentences :: "ustring \<Rightarrow> ustring list option" where
  "split_into_sentences text0 = do {
     let text = str '' '' @ text0 @ str ''  '';
     let text = replace [10] (str '' '') text;
     text \<leftarrow> re_sub PREFIXES [Ref 1, Lit (str ''<prd>'')] text;
     text \<leftarrow> re_sub WEBSITES [Lit (str ''<prd>''), Ref 1] text;
     text \<leftarrow> re_sub (cats [DIGITS, dot, DIGITS]) [Ref 1, Lit (str ''<prd>''), Ref 2] text;
     let text = ellipsis text;
     let text = (if contains (str ''Ph.D'') text
                 then replace (str ''Ph.D.'') (str ''Ph<prd>D<prd>'') text else text);
     text \<leftarrow> re_sub (cats [Space, ALPHABETS, dot, Chr 32])
               [Lit (str '' ''), Ref 1, Lit (str ''<prd> '')] text;
     text \<leftarrow> re_sub (cats [ACRONYMS, Chr 32, STARTERS])
               [Ref 1, Lit (str ''<stop> ''), Ref 2] text;
     text \<leftarrow> re_sub (cats [ALPHABETS, dot, ALPHABETS, dot, ALPHABETS, dot])
               [Ref 1, Lit (str ''<prd>''), Ref 2, Lit (str ''<prd>''), Ref 3, Lit (str ''<prd>'')]
               text;
     text \<leftarrow> re_sub (cats [ALPHABETS, dot, ALPHABETS, dot])
               [Ref 1, Lit (str ''<prd>''), Ref 2, Lit (str ''<prd>'')] text;
     text \<leftarrow> re_sub (cats [Chr 32, SUFFIXES, dot, Chr 32, STARTERS])
               [Lit (str '' ''), Ref 1, Lit (str ''<stop> ''), Ref 2] text;
     text \<leftarrow> re_sub (cats [Chr 32, SUFFIXES, dot]) [Lit (str '' ''), Ref 1, Lit (str ''<prd>'')] text;
     text \<leftarrow> re_sub (cats [Chr 32, ALPHABETS, dot]) [Lit (str '' ''), Ref 1, Lit (str ''<prd>'')] text;
     let text = swap_quotes text;
     let text = replace (str ''.'') (str ''.<stop>'') text;
     let text = replace (str ''?'') (str ''?<stop>'') text;
     let text = replace (str ''!'') (str ''!<stop>'') text;
     let text = replace (str ''<prd>'') (str ''.'') text;
     let sentences = split (str ''<stop>'') text;
     let sentences = map strip sentences;
     let sentences = (if sentences \<noteq> [] \<and> last sentences = [] then butlast sentences
                      else sentences);
     Some sentences
   }"

section \<open>The word list and \<open>generate_keywords\<close>\<close>

text \<open>
  \<open>WORD_LIST\<close>, the 1525 entries in the order of the source, written in blocks of a
  hundred; 228 and 246 are the code points of the letters a and o with diaeresis.
\<close>

definition WORD_LIST_0 :: "ustring list" where
  "WORD_LIST_0 =
    [str ''l'' @ [228] @ str ''nsimainen'', str ''tuomita'', str ''signaali'',
     str ''kaatopaikka'', str ''paikalla'', str ''vastap'' @ [228, 228] @ str ''t'' @ [228],
     str ''pohja'', str ''peruna'', str ''hallinto'', str ''ty'' @ [246] @ str ''skentelee'',
     str ''tervetuloa'', str ''aamu'', str ''hyv'' @ [228], str ''virasto'', str ''ensisijainen'',
     str ''toivoa'', str ''vastuuta'', str ''paina'', str ''ongelma'', str ''presidentti'',
     str ''varastaa'', str ''harjata'', str ''lukea'', str ''tyyppi'',
     str ''ly'' @ [246] @ str ''d'' @ [228], str ''kouluttaja'', str ''kasvu'', str ''lukko'',
     str ''luuta'', str ''tapaus'', str ''yht'' @ [228] @ str ''l'' @ [228] @ str ''inen'',
     str ''mukava'', str ''alueella'', str ''korvaaminen'', str ''suorituskyky'' @ [228],
     str ''kaveri'', str ''k'' @ [228] @ str ''vell'' @ [228],
     str ''l'' @ [228, 228] @ str ''ke'', str ''elokuva'', str ''asia'', str ''rock'',
     str ''napauta'', str ''kokonais-'', str ''kilpailua'', str ''helppous'',
     str ''etel'' @ [228, 228] @ str ''n'', str ''perustaminen'',
     str ''ker'' @ [228] @ str ''t'' @ [228],
     str ''pys'' @ [228] @ str ''k'' @ [246] @ str ''inti'', str ''maailman-'', str ''paljon'',
     str ''hengitys'', str ''v'' @ [228] @ str ''itt'' @ [228, 228], str ''alkoholia'',
     str ''kauppaa'', str ''rakas'', str ''kohokohta'', str ''katu'', str ''asia'',
     str ''p'' @ [228, 228] @ str ''t'' @ [246] @ str ''s'', str ''sotku'', str ''sopimus'',
     str ''studio'', str ''valmentaja'', str ''auttaa'', str ''aivot'', str ''siipi'',
     str ''tyyli'', str ''yksityinen'', str ''alkuun'', str ''ruskea'', str ''jalka'',
     str ''ostaa'', str ''menettely'' @ [228], str ''menetelm'' @ [228], str ''nopeus'',
     str ''korkea'', str ''yritys'', str ''arvokasta'', str ''piirakka'', str ''analyytikko'',
     str ''istunto'', str ''kuvio'', str ''piiri'', str ''ilo'',
     str ''p'' @ [228] @ str ''iv'' @ [228] @ str ''llinen'', str ''uima'', str ''vitsi'',
     str ''tilata'', str ''levy'', str ''osasto'', str ''moottori'', str ''solu'',
     str ''viett'' @ [228, 228], str ''kaappi'', str ''ero'', str ''tehoa'', str ''tutkimus'',
     str ''moottori'', str ''hevonen'']"

definition WORD_LIST_1 :: "ustring list" where
  "WORD_LIST_1 =
    [str ''ulottuvuus'', str ''maksaa'', str ''varvas'', str ''k'' @ [228] @ str ''yr'' @ [228],
     str ''kirjallisuus'', str ''vaivautua'', str ''palo'', str ''mahdollisuus'',
     str ''keskustelu'', str ''toimintaa'', str ''kulku'', str ''Hei'', str ''sykli'',
     str ''tausta'', str ''hiljainen'', str ''kirjoittaja'', str ''vaikutus'',
     str ''n'' @ [228] @ str ''yttelij'' @ [228], str ''sivu'',
     str ''polkupy'' @ [246] @ str ''r'' @ [228], str ''virhe'', str ''kurkku'',
     str ''hy'' @ [246] @ str ''kk'' @ [228] @ str ''ys'', str ''merkki'', str ''puhelin'',
     str ''teet'' @ [228], str ''lis'' @ [228] @ str ''t'' @ [228], str ''tulokset'',
     str ''tiedosto'', str ''erityisi'' @ [228], str ''tarkastaja'',
     str ''sis'' @ [228] @ str ''inen'', str ''potentiaalia'',
     str ''henkil'' @ [246] @ str ''st'' @ [246, 228], str ''rakentaminen'',
     str ''ty'' @ [246] @ str ''nantaja'', str ''kenk'' @ [228], str ''k'' @ [228] @ str ''si'',
     str ''suunta'', str ''puutarha'', str ''ostaa'', str ''haastatella'', str ''opiskella'',
     str ''tunnustaminen'', str ''j'' @ [228] @ str ''sen'', str ''henkist'' @ [228],
     str ''uuni'', str ''voileip'' @ [228], str ''outo'', str ''matkustaja'', str ''erityisesti'',
     str ''vastaus'', str ''reaktio'', str ''koko'', str ''vaihtelua'', str ''a'',
     str ''peruuttaa'', str ''karkkia'', str ''poistu'', str ''vieras'', str ''kunto'',
     str ''lent'' @ [228, 228], str ''hinta'', str ''heikkous'', str ''muuntaa'', str ''hotelli'',
     str ''hienoa'', str ''suuhun'', str ''mieleen'', str ''laulu'', str ''sokeria'',
     str ''ep'' @ [228] @ str ''ilty'', str ''puhelin'', str ''korva'', str ''katto'',
     str ''maali'', str ''j'' @ [228, 228] @ str ''kaappi'', str ''organisaatio'',
     str ''tuomaristo'', str ''palkita'', str ''suunnittelu'',
     str ''p'' @ [228] @ str ''iv'' @ [228], str ''hallinta'', str ''miehist'' @ [246],
     str ''baari'', str ''tie'', str ''kuvaus'', str ''juhla'', str ''pisteet'', str ''merkki'',
     str ''kirje'', str ''suihku'', str ''ehdotus'', str ''sir'', str ''onnea'',
     str ''kansallinen'', str ''edistyst'' @ [228], str ''sali'', str ''aivohalvaus'',
     str ''teoria'']"

definition WORD_LIST_2 :: "ustring list" where
  "WORD_LIST_2 =
    [str ''tarjous'', str ''tarina'', str ''verottaa'',
     str ''m'' @ [228, 228] @ str ''ritelm'' @ [228], str ''historia'', str ''ratsastaa'',
     str ''keskikokoinen'', str ''avaaminen'', str ''lasi'', str ''Hissi'', str ''vatsa'',
     str ''kysymys'', str ''kyky'', str ''johtava'', str ''kyl'' @ [228], str ''tietokone'',
     str ''kaupunki'', str ''suuri'', str ''luottamusta'', str ''kynttil'' @ [228], str ''pappi'',
     str ''suositus'', str ''kohta'', str ''tarpeellista'', str ''kehon'', str ''vastaanotto'',
     str ''salaisuus'', str ''kauhu'', str ''melua'', str ''kulttuuri'', str ''Varoitus'',
     str ''vett'' @ [228], str ''py'' @ [246] @ str ''rist'' @ [228, 228], str ''ruokavalio'',
     str ''kukka'', str ''linja-auto'', str ''kova'', str ''lupa'', str ''viikko'',
     str ''kehote'', str ''yhteys'',
     str ''v'' @ [228, 228] @ str ''rink'' @ [228] @ str ''ytt'' @ [246], str ''korkeus'',
     str ''tallentaa'', str ''nurkkaan'', str ''rajaa'', str ''korostaa'', str ''ajaa'',
     str ''stop'', str ''repi'' @ [228], str ''ateria'', str ''kuunnella'',
     str ''h'' @ [228] @ str ''mmennyst'' @ [228],
     str ''tytt'' @ [246] @ str ''yst'' @ [228] @ str ''v'' @ [228],
     str ''el'' @ [228] @ str ''v'' @ [228] @ str ''t'', str ''suhde'', str ''merkitys'',
     str ''suunnitelma'', str ''luova'', str ''tunnelmaa'', str ''syytt'' @ [228, 228],
     str ''kutsua'', str ''asuminen'', str ''paperia'', str ''juoda'', str ''rullaa'',
     str ''hopea'', str ''humalassa'', str ''ik'' @ [228], str ''vahingoittaa'', str ''savu'',
     str ''ymp'' @ [228] @ str ''rist'' @ [246, 246] @ str ''n'', str ''pakata'',
     str ''s'' @ [228, 228] @ str ''st'' @ [246] @ str ''j'' @ [228], str ''vaikutus'',
     str ''turisti'', str ''sade'', str ''l'' @ [228] @ str ''hett'' @ [228, 228], str ''merkki'',
     str ''iso'' @ [228] @ str ''iti'', str ''juosta'', str ''voittoa'',
     str ''ty'' @ [246] @ str ''nn'' @ [228], str ''virkailija'', str ''lopullinen'',
     str ''viini'' @ [228], str ''uida'', str ''tauko'', str ''tavaraa'', str ''laulaja'',
     str ''hautajaiset'', str ''keskim'' @ [228, 228] @ str ''rin'',
     str ''l'' @ [228] @ str ''hde'', str ''n'' @ [228] @ str ''kym'' @ [228], str ''perinne'',
     str ''henkil'' @ [246] @ str ''kohtainen'', str ''lumi'', str ''kukaan'',
     str ''et'' @ [228] @ str ''isyys'', str ''j'' @ [228] @ str ''rjestell'' @ [228]]"

definition WORD_LIST_3 :: "ustring list" where
  "WORD_LIST_3 =
    [str ''herkk'' @ [228], str ''el'' @ [228] @ str ''in'',
     str ''p'' @ [228, 228] @ str ''aine'', str ''neuvottelu'', str ''napsauta'',
     str ''mielialaa'', str ''ajanjaksoa'', str ''saapuminen'', str ''ilmaisua'', str ''loma'',
     str ''toistaa'', str ''p'' @ [246] @ str ''ly'', str ''vaatekaappi'', str ''kulta'',
     str ''huono'', str ''purjehtia'', str ''yhdistelm'' @ [228], str ''vaatteet'',
     str ''painotus'', str ''velvollisuus'', str ''musta'', str ''askel'', str ''kouluun'',
     str ''hyp'' @ [228] @ str ''t'' @ [228], str ''asiakirja'', str ''ammattilainen'',
     str ''huuli'', str ''kemiallinen'', str ''edess'' @ [228],
     str ''her'' @ [228] @ str ''t'' @ [228], str ''samalla kun'',
     str ''sis'' @ [228] @ str ''ll'' @ [228], str ''katsella'', str ''rivi'', str ''aihe'',
     str ''rangaistus'', str ''saldo'', str ''mahdollista'', str ''aikuinen'', str ''sivuun'',
     str ''n'' @ [228] @ str ''yte'', str ''valittaa'', str ''h'' @ [228, 228] @ str ''t'',
     str ''syvyys'', str ''kuningas'', str ''my'' @ [246] @ str ''nt'' @ [228, 228],
     str ''vaimo'', str ''isku'', str ''sivusto'', str ''leiri'', str ''musiikkia'',
     str ''turvallinen'', str ''lahja'', str ''vika'', str ''arvaus'', str ''toimia'',
     str ''h'' @ [228] @ str ''pe'' @ [228], str ''draama'',
     str ''p'' @ [228, 228] @ str ''omaa'', str ''tentti'', str ''tyhm'' @ [228],
     str ''tallentaa'', [228, 228] @ str ''ni'', str ''swing'', str ''romaani'', str ''minimi'',
     str ''suhde'', str ''kone'', str ''muoto'', str ''johtaa'', str ''toimintaa'',
     str ''palkkaa'', str ''pilvi'', str ''asia'', str ''osuma'', str ''luku'', str ''vaiheessa'',
     str ''m'' @ [228, 228] @ str ''r'' @ [228], str ''p'' @ [228, 228] @ str ''sy'',
     str ''armeija'', str ''ketju'', str ''liikennett'' @ [228], str ''potkia'', str ''analyysi'',
     str ''lentokentt'' @ [228], str ''aika'', str ''loma'', str ''filosofia'', str ''pallo'',
     str ''rinnassa'', str ''Kiitos'', str ''paikka'', str ''vuori'', str ''mainonta'',
     str ''punainen'', str ''mennyt'', str ''vuokrata'', str ''palata'', str ''kiertue'',
     str ''talo'']"

definition WORD_LIST_4 :: "ustring list" where
  "WORD_LIST_4 =
    [str ''rakentaminen'', str ''net'', str ''syntyper'' @ [228] @ str ''inen'', str ''sota'',
     str ''kuva'', str ''maksu'', str ''spray'',
     str ''k'' @ [228] @ str ''ytt'' @ [228] @ str ''j'' @ [228], str ''lika'', str ''ammuttu'',
     str ''teht'' @ [228] @ str ''v'' @ [228], str ''keppi'',
     str ''yst'' @ [228] @ str ''v'' @ [228], str ''ohjelmisto'',
     str ''edist'' @ [228] @ str ''minen'', str ''vuorovaikutusta'', str ''surround'',
     str ''lohko'', str ''tarkoitus'', str ''harjoitella'', str ''konflikti'', str ''rutiini'',
     str ''vaatimus'', str ''bonus'', str ''reik'' @ [228], str ''osavaltio'', str ''juniori'',
     str ''makea'', str ''saalis'', str ''repi'' @ [228], str ''taita'',
     str ''sein'' @ [228, 228] @ str ''n'', str ''toimittaja'',
     str ''el'' @ [228] @ str ''m'' @ [228, 228], str ''asema'', str ''punta'',
     str ''kunnioittaminen'', str ''kylpyhuone'', str ''takki'',
     str ''k'' @ [228] @ str ''sikirjoitus'', str ''job'', str ''opettaa'',
     str ''syntym'' @ [228] @ str ''st'' @ [228], str ''n'' @ [228] @ str ''kym'' @ [228],
     str ''ratkaista'', str ''teema'', str ''ty'' @ [246] @ str ''ntekij'' @ [228],
     str ''ep'' @ [228] @ str ''ill'' @ [228], str ''markkinoida'', str ''koulutus'',
     str ''palvella'', str ''toipua'', str ''s'' @ [228] @ str ''vy'', str ''vahingoittaa'',
     str ''neiti'', str ''liitto'', str ''ymm'' @ [228] @ str ''rt'' @ [228] @ str ''minen'',
     str ''lehm'' @ [228], str ''joki'', str ''yhdistys'', str ''k'' @ [228] @ str ''site'',
     str ''koulutusta'', str ''resepti'', str ''suhdetta'', str ''varata'', str ''masennus'',
     str ''todiste'', str ''hiukset'', str ''tuloja'', str ''riippumaton'', str ''hissi'',
     str ''toimeksianto'', str ''v'' @ [228] @ str ''liaikaista'',
     str ''m'' @ [228, 228] @ str ''r'' @ [228], str ''menetys'', str ''reuna'', str ''seurata'',
     str ''tarkista'', str ''k'' @ [246] @ str ''ysi'', str ''arvio'', str ''saastuminen'',
     str ''vakaa'', str ''viesti'', str ''toimitus'',
     str ''n'' @ [228] @ str ''k'' @ [246] @ str ''kulmasta'', str ''peili'', str ''avustaja'',
     str ''edustaja'', str ''todistaja'', str ''luonto'', str ''tuomari'',
     str ''hedelm'' @ [228, 228], str ''k'' @ [228] @ str ''rki'', str ''paholainen'',
     str ''kaupunki'', str ''h'' @ [228] @ str ''t'' @ [228] @ str ''tilanteessa'',
     str ''ylempi'', str ''pudota'', str ''pysy'' @ [228], str ''ihmisen'']"

definition WORD_LIST_5 :: "ustring list" where
  "WORD_LIST_5 =
    [str ''kaula'', str ''puhuja'', str ''verkkoon'', str ''laulaa'', str ''vastustaa'',
     str ''liigassa'', str ''matka'', str ''allekirjoitus'', str ''lakimies'', str ''merkitys'',
     str ''kaasua'', str ''valinta'', str ''insin'' @ [246, 246] @ str ''ri'', str ''menestys'',
     str ''osa'', str ''ulkoinen'', str ''ty'' @ [246] @ str ''ntekij'' @ [228],
     str ''yksinkertainen'', str ''nelj'' @ [228] @ str ''nnes'', str ''opiskelija'',
     str ''syd'' @ [228] @ str ''n'', str ''sy'' @ [246] @ str ''tt'' @ [246],
     str ''paheksuntaa'', str ''siirt'' @ [228, 228], str ''karkea'', str ''nainen'',
     str ''ruoho'', str ''yhteis'' @ [246, 228], str ''autotalli'', str ''nuoriso'',
     str ''standardi'', str ''hame'', str ''lupaus'', str ''sokea'', str ''televisio'',
     str ''sairaus'', str ''komissio'', str ''positiivinen'', str ''energiaa'',
     str ''rauhallinen'', str ''l'' @ [228] @ str ''sn'' @ [228] @ str ''olo'',
     str ''viritt'' @ [228, 228], str ''perusteella'', str ''etusija'', str ''p'' @ [228, 228],
     str ''yleinen'', str ''leikata'', str ''jonnekin'', str ''esittely'', str ''nykyinen'',
     str ''ajatteli'', str ''vallankumous'', str ''vaivaa'', str ''hallita'', str ''toteuttaa'',
     str ''tasavalta'', str ''kerros'', str ''periaate'', str ''muukalainen'',
     str ''olkap'' @ [228, 228], str ''luokka'', str ''painiketta'', str ''tennis'',
     str ''valvoa'', str ''kokoelma'', str ''tili'', str ''rekister'' @ [246] @ str ''idy'',
     str ''k'' @ [228] @ str ''sine'', str ''jakaa'', str ''professori'', str ''tuoli'',
     str ''etusijalla'', str ''yhdist'' @ [228, 228], str ''rauhaa'', str ''laajennus'',
     str ''ehk'' @ [228], str ''ilta'', str ''kehys'', str ''sisko'', str ''aalto'',
     str ''koodi'', str ''sovellus'', str ''hiiri'', str ''ottelu'', str ''laskuri'',
     str ''pullo'', str ''puoli'', str ''poski'', str ''resoluutio'', str ''takaisin'',
     str ''tietoa'', str ''tehd'' @ [228], str ''keskustelua'', str ''ruuvi'', str ''pituus'',
     str ''onnettomuus'', str ''taistelu'', str ''pukeutua'', str ''polvi'', str ''loki'']"

definition WORD_LIST_6 :: "ustring list" where
  "WORD_LIST_6 =
    [str ''paketti'', str ''se'', str ''k'' @ [228, 228] @ str ''nn'' @ [228], str ''kuulo'',
     str ''sanomalehti'', str ''kerros'', str ''varallisuus'', str ''profiili'',
     str ''mielikuvitus'', str ''vastaus'', str ''viikonloppu'', str ''opettaja'',
     str ''ulkon'' @ [228] @ str ''k'' @ [246], str ''tavata'',
     str ''py'' @ [246] @ str ''r'' @ [228], str ''nousta'', str ''vy'' @ [246], str ''kaatua'',
     str ''kulho'', str ''vastaava'', str ''tukea'', str ''kuva'', str ''runo'',
     str ''riski'' @ [228], str ''j'' @ [228] @ str ''nnityst'' @ [228], str ''kaukana'',
     str ''sihteeri'', str ''julkinen'', str ''tuottaa'', str ''kone'',
     str ''n'' @ [228] @ str ''ytt'' @ [246], str ''rahaa'', str ''hiekka'', str ''tilanne'',
     str ''booli'', str ''asiakas'', str ''otsikko'', str ''ravista'', str ''kiinnitys'',
     str ''vaihtoehto'', str ''m'' @ [228, 228] @ str ''r'' @ [228], str ''pop'', str ''ikkuna'',
     str ''laajuus'', str ''ei mit'' @ [228, 228] @ str ''n'', str ''kokea'', str ''lausunto'',
     str ''l'' @ [228] @ str ''ht'' @ [246, 228], str ''tanssi'', str ''osoitus'', str ''poika'',
     str ''materiaalia'', str ''b'' @ [228] @ str ''ndi'', str ''johtaja'', str ''aurinko'',
     str ''kaunis'', str ''lihas'', str ''maanviljelij'' @ [228], str ''lajike'', str ''rasvaa'',
     str ''kahva'', str ''johtaja'', str ''mahdollisuus'', str ''kalenteri'',
     str ''ulkopuolella'', str ''vauhti'', str ''kylpy'', str ''kalastaa'', str ''seurauksena'',
     str ''laittaa'', str ''omistaja'', str ''menn'' @ [228],
     str ''l'' @ [228, 228] @ str ''k'' @ [228] @ str ''ri'', str ''tiedot'', str ''jakaa'',
     str ''satuttaa'', str ''suojaa'', str ''ura'', str ''rahoitusta'', str ''pakottaa'',
     str ''golf'', str ''roskat'', str ''n'' @ [228] @ str ''k'' @ [246] @ str ''kohta'',
     str ''lapsi'', str ''ruokaa'', str ''boot'', str ''maitoa'', str ''vastata'',
     str ''tavoite'', str ''todellisuutta'', str ''raaka'', str ''rengas'', str ''ostoskeskus'',
     str ''yksi'', str ''vaikutus'', str ''alueella'', str ''uutiset'',
     str ''kansainv'' @ [228] @ str ''linen'', str ''sarja'', str ''tehd'' @ [228]]"

definition WORD_LIST_7 :: "ustring list" where
  "WORD_LIST_7 =
    [[228] @ str ''iti'', str ''suojaa'', str ''lakko'', str ''lainata'', str ''kuukausi'',
     str ''istuin'', str ''mit'' @ [228, 228] @ str ''n'', str ''viihde'', str ''tuttua'',
     str ''vihje'', str ''vuosi'', str ''iloinen'', str ''supermarket'', str ''luonnollinen'',
     str ''jumala'', str ''maksaa'', str ''keskustelu'', str ''solmio'', str ''pilata'',
     str ''mukavuus'', str ''maata'', str ''myrsky'', str ''prosentteina'', str ''apua'',
     str ''budjetti'', str ''vahvuus'', str ''alku'', str ''nukkua'', str ''muu'', str ''nuori'',
     str ''yksikk'' @ [246], str ''t'' @ [228] @ str ''ytt'' @ [228, 228], str ''tallentaa'',
     str ''halu'', str ''piilottaa'', str ''arvo'', str ''kuppi'', str ''huolto'',
     str ''sairaanhoitaja'', str ''toiminto'', str ''torni'', str ''rooli'', str ''luokkaa'',
     str ''kamera'', str ''tietokanta'', str ''paniikki'', str ''kansakunta'', str ''kori'',
     str ''j'' @ [228, 228] @ str ''t'' @ [228], str ''taide'', str ''henki'', str ''kartoittaa'',
     str ''vaihtaa'', str ''palautetta'', str ''lausunto'', str ''maine'', str ''haku'',
     str ''mets'' @ [228] @ str ''st'' @ [228, 228], str ''k'' @ [228] @ str ''ytt'' @ [228, 228],
     str ''ilke'' @ [228], str ''huomautus'', str ''uros'', str ''piha'', str ''vuosittain'',
     str ''kaulus'',
     str ''p'' @ [228] @ str ''iv'' @ [228] @ str ''m'' @ [228, 228] @ str ''r'' @ [228],
     str ''alusta'', str ''kasvi'', str ''onni'', str ''intohimo'',
     str ''yst'' @ [228] @ str ''vyys'', str ''levit'' @ [228] @ str ''n'',
     str ''sy'' @ [246] @ str ''p'' @ [228], str ''lippu'', str ''asenne'', str ''saari'',
     str ''aktiivinen'', str ''esine'', str ''palvelua'', str ''ostaja'', str ''purra'',
     str ''kortti'', str ''kasvot'', str ''pihvi'', str ''ehdotus'',
     str ''k'' @ [228] @ str ''rsiv'' @ [228] @ str ''llinen'',
     str ''l'' @ [228] @ str ''mp'' @ [246, 228], str ''s'' @ [228, 228] @ str ''nt'' @ [246],
     str ''asukas'', str ''laaja'', str ''politiikka'', str ''l'' @ [228] @ str ''nteen'',
     str ''veitsi'', str ''asiantuntija'', str ''tytt'' @ [246], str ''design'', str ''suolaa'',
     str ''baseball'', str ''napata'', str ''tarkastus'']"

definition WORD_LIST_8 :: "ustring list" where
  "WORD_LIST_8 =
    [str ''serkku'', str ''pari'', str ''lehti'', str ''kokki'', str ''riippuvainen'',
     str ''turvallisuus'', str ''kana'', str ''versio'', str ''valuutta'', str ''tikapuut'',
     str ''j'' @ [228] @ str ''rjestelm'' @ [228], str ''keitti'' @ [246],
     str ''ty'' @ [246] @ str ''llisyytt'' @ [228], str ''paikallinen'', str ''Huomio'',
     str ''johtaja'', str ''tosiasia'', str ''kansi'', str ''surullinen'', str ''vartija'',
     str ''suhteellinen'', str ''l'' @ [228, 228] @ str ''ni'', str ''korko'', str ''lounas'',
     str ''ohjelmoida'', str ''aloite'', str ''vaihde'', str ''silta'', str ''rinta'',
     str ''puhua'', str ''ruokalaji'', str ''takuu'', str ''olut'', str ''ajoneuvoa'',
     str ''vastaanotto'', str ''nainen'', str ''aine'', str ''kopioida'', str ''luento'',
     str ''etu'', str ''pys'' @ [228] @ str ''k'' @ [246] @ str ''id'' @ [228],
     str ''kylm'' @ [228], str ''kuolema'', str ''sekoita'', str ''pid'' @ [228],
     str ''mittakaavassa'', str ''huomenna'', str ''verta'', str ''pyyt'' @ [228, 228],
     str ''vihre'' @ [228], str ''ev'' @ [228] @ str ''steen'', str ''kirkko'', str ''nauhat'',
     str ''ikuisesti'', str ''pidemm'' @ [228] @ str ''lle'', str ''velkaa'', str ''puuttua'',
     str ''pest'' @ [228], str ''j'' @ [228] @ str ''lkeen'', str ''tuntea'', str ''maksimi'',
     str ''alalla'', str ''meri'', str ''omaisuutta'', str ''taloustiede'', str ''valikosta'',
     str ''penkki'', str ''yritt'' @ [228, 228], str ''kieli'', str ''aloita'', str ''soittaa'',
     str ''kiinte'' @ [228], str ''osoite'', str ''tulot'', str ''jalka'', str ''vanhempi'',
     str ''hunaja'', str ''muutama'', str ''seos'', str ''k'' @ [228] @ str ''teist'' @ [228],
     str ''p'' @ [228] @ str ''ivitt'' @ [228] @ str ''istavarakauppa'', str ''linkki'',
     str ''kartta'', str ''muodossa'', str ''tekij'' @ [228], str ''potti'', str ''malli'',
     str ''kirjailija'', str ''maatilalla'', str ''talvi'', str ''taito'', str ''miss'' @ [228],
     str ''syntym'' @ [228] @ str ''p'' @ [228] @ str ''iv'' @ [228], str ''politiikkaa'',
     str ''vapauttaa'', str ''aviomies'', str ''lab'', str ''kiire'', str ''postia'',
     str ''laitteet'']"

definition WORD_LIST_9 :: "ustring list" where
  "WORD_LIST_9 =
    [str ''pesuallas'', str ''pari'', str ''kuljettaja'', str ''huomioon'', str ''nahka'',
     str ''ihoa'', str ''sininen'', str ''vene'', str ''myyntiin'', str ''tiili'', str ''kaksi'',
     str ''sy'' @ [246] @ str ''tt'' @ [228, 228], str ''neli'' @ [246], str ''piste'',
     str ''kiire'', str ''unelma'', str ''sijainti'',
     str ''iltap'' @ [228] @ str ''iv'' @ [228] @ str ''ll'' @ [228], str ''valmistaja'',
     str ''ohjata'', str ''tilaisuus'', str ''ongelmia'', str ''esittely'', str ''neuvoja'',
     str ''veto'', str ''sy'' @ [246] @ str ''d'' @ [228], str ''tappaa'', str ''luokkaan'',
     str ''tavalla'', str ''toimisto'', str ''kiinteist'' @ [246], str ''ylpeys'',
     str ''tietoisuutta'', str ''lipsahdus'', str ''crack'', str ''asiakas'', str ''naulata'',
     str ''ampua'', str ''j'' @ [228] @ str ''senyys'', str ''pehme'' @ [228],
     str ''ket'' @ [228, 228] @ str ''n'', str ''web'', str ''virallinen'',
     str ''yksil'' @ [246] @ str ''llinen'', str ''pizza'', str ''kiinnostaa'', str ''laukku'',
     str ''loitsu'', str ''ammatti'', str ''kuningatar'', str ''sopimus'', str ''resurssi'',
     str ''laiva'', str ''kaveri'', str ''suklaa'', str ''liitos'', str ''muodollinen'',
     str ''yl'' @ [228] @ str ''kerrassa'', str ''auto'', str ''lomakohde'', str ''ulkomailla'',
     str ''j'' @ [228] @ str ''lleenmyyj'' @ [228], str ''liittolainen'', str ''sormi'',
     str ''leikkaus'', str ''kommentti'', str ''joukkue'', str ''yksityiskohta'', str ''hullu'',
     str ''polku'', str ''tarina'', str ''ensimm'' @ [228] @ str ''inen'',
     str ''k'' @ [228] @ str ''sivarsi'', str ''radio'', str ''kysynt'' @ [228], str ''sinkku'',
     str ''piirt'' @ [228, 228], str ''keltainen'', str ''kilpailu'', str ''pala'',
     str ''lainata'', str ''Ved'' @ [228], str ''kaupallinen'', str ''paita'', str ''panos'',
     str ''kerma'', str ''kanava'', str ''puku'', str ''kurinalaisuutta'', str ''ohje'',
     str ''konsertti'', str ''puhetta'', str ''matala'', str ''tehokas'', str ''ripustaa'',
     str ''naarmuuntua'', str ''teollisuus'', str ''aamiainen'', str ''antaa'',
     str ''liitty'' @ [228]]"

definition WORD_LIST_10 :: "ustring list" where
  "WORD_LIST_10 =
    [str ''metalli'', str ''makuuhuone'', str ''minuutti'', str ''tuote'',
     str ''lev'' @ [228] @ str ''t'' @ [228],
     str ''l'' @ [228] @ str ''mp'' @ [246] @ str ''tila'', str ''monet'', str ''antaa'',
     str ''argumentti'', str ''painaa'', str ''violetti'', str ''nauraa'', str ''terveys'',
     str ''luotto'', str ''investointi'', str ''myyd'' @ [228], str ''asetusta'',
     str ''oppitunti'', str ''muna'', str ''keskell'' @ [228], str ''avioliitto'', str ''taso'',
     str ''todisteita'', str ''lause'', str ''rakkaus'', str ''itse'',
     str ''hy'' @ [246] @ str ''ty'' @ [228], str ''opastusta'', str ''vaikuttaa'',
     str ''sin'' @ [228], str ''is'' @ [228], str ''ahdistusta'', str ''erityist'' @ [228],
     str ''poikayst'' @ [228] @ str ''v'' @ [228], str ''testata'', str ''tyhj'' @ [228],
     str ''maksu'', str ''keitto'', str ''velvollisuus'', str ''vastata'', str ''hymy'',
     str ''syv'' @ [228], str ''valitus'', str ''lis'' @ [228] @ str ''ys'', str ''arvostelu'',
     str ''laatikko'', str ''pyyhe'', str ''alaik'' @ [228] @ str ''inen'', str ''hauskaa'',
     str ''maaper'' @ [228, 228], str ''antaa'', str ''savuke'', str ''netti'', str ''saada'',
     str ''kertoa'', str ''sis'' @ [228, 228] @ str ''ntulo'', str ''varaa'', str ''tapaus'',
     str ''perhe'', str ''kielt'' @ [228] @ str ''yty'' @ [228], str ''haara'', str ''voi'',
     str ''kyn'' @ [228], str ''isois'' @ [228], str ''vakio'',
     str ''s'' @ [228] @ str ''ili'' @ [246], str ''set'' @ [228], str ''ilmasto'',
     str ''maahan'', [228, 228] @ str ''nenvoimakkuutta'', str ''viestint'' @ [228, 228],
     str ''kiltti'', str ''runoilija'', str ''lapsi'', str ''n'' @ [228] @ str ''ytt'' @ [246],
     str ''minun'', str ''lopettaa'', str ''geeni'', str ''puute'',
     str ''hyv'' @ [228] @ str ''ntekev'' @ [228] @ str ''isyys'', str ''muisti'', str ''hammas'',
     str ''pelko'', str ''mainita'', str ''markkinointi'', str ''paljastaa'', str ''syy'',
     str ''tuomioistuin'', str ''kausi'', str ''vapautta'', str ''maa'', str ''urheilu'',
     str ''yleis'' @ [246], str ''luokkahuoneessa'', str ''lakia'', str ''koukku'',
     str ''voittaa'', str ''kantaa'', str ''silm'' @ [228], str ''haju'']"

definition WORD_LIST_11 :: "ustring list" where
  "WORD_LIST_11 =
    [str ''jakelu'', str ''tutkimusta'', str ''maassa'', str ''uskaltaa'', str ''toivoa'',
     str ''kun'', str ''venytt'' @ [228, 228], str ''kirjasto'', str ''jos'', str ''viive'',
     str ''college'', str ''muovi'', str ''kirja'', str ''esitt'' @ [228, 228],
     str ''k'' @ [228] @ str ''ytt'' @ [228, 228], str ''huoli'', str ''mestari'',
     str ''tavoite'', str ''taloutta'', str ''maaliskuuta'', str ''vaaleissa'', str ''heijastus'',
     str ''keskiy'' @ [246] @ str ''ll'' @ [228], str ''liukum'' @ [228] @ str ''ki'',
     str ''inflaatio'', str ''toimintaa'', str ''haaste'', str ''kitara'', str ''rannikolla'',
     str ''omena'', str ''kampanja'', str ''ala'', str ''takki'',
     str ''j'' @ [228] @ str ''rke'' @ [228], str ''tapa'', str ''visuaalinen'', str ''poistaa'',
     str ''s'' @ [228, 228], str ''roskakoriin'', str ''kaapeli'', str ''katumusta'',
     str ''kaveri'', str ''ranta'', str ''historioitsija'', str ''rohkeutta'',
     str ''my'' @ [246] @ str ''t'' @ [228] @ str ''tuntoa'', str ''kuorma-auto'',
     str ''j'' @ [228] @ str ''nnityst'' @ [228], str ''lupa'', str ''nen'' @ [228],
     str ''vuode'', str ''poika'', str ''henkil'' @ [246], str ''pohja'', str ''liha'',
     str ''tavallista'', str ''ilmaa'', str ''kokous'', str ''arvoinen'', str ''peli'',
     str ''itsen'' @ [228] @ str ''isyys'', str ''fyysist'' @ [228], str ''lyhyt'',
     str ''pelata'', str ''nostaa'', str ''hallitus'', str ''h'' @ [228] @ str ''n'',
     str ''avain'', str ''kirjoittaminen'', str ''valita'', str ''komento'', str ''juhliin'',
     str ''eilen'', str ''kev'' @ [228] @ str ''t'', str ''ehdokas'', str ''fysiikka'',
     str ''yliopisto'', str ''koskea'', str ''kehityst'' @ [228], str ''muuttaa'',
     str ''merkkijono'', str ''tavoite'', str ''esimerkki'', str ''huone'', str ''katkera'',
     str ''lintu'', str ''jalkapallo'', str ''normaali'', str ''jakaa'', str ''vaikutelma'',
     str ''puu'', str ''pitk'' @ [228], str ''merkitys'', str ''varastossa'', str ''korkki'',
     str ''johtajuutta'', str ''media'', str ''kunnianhimoa'', str ''kalastus'', str ''essee'']"

definition WORD_LIST_12 :: "ustring list" where
  "WORD_LIST_12 =
    [str ''salaatti'', str ''korjaus'', str ''t'' @ [228] @ str ''n'' @ [228, 228] @ str ''n'',
     str ''suunnittelija'', str ''y'' @ [246], str ''pankki'', str ''piirustus'',
     str ''v'' @ [228] @ str ''ist'' @ [228] @ str ''m'' @ [228] @ str ''t'' @ [246] @ str ''n'',
     str ''vaihe'', str ''laaja'', str ''siru'', str ''suututtaa'', str ''kytkin'',
     str ''itke'' @ [228], str ''kierre'', str ''persoonallisuus'', str ''yritt'' @ [228, 228],
     str ''varastointi'', str ''oleminen'', str ''valmistelu'', str ''bat'', str ''valinta'',
     str ''valkoinen'', str ''teknologiaa'', str ''sopimus'', str ''puolella'', str ''osio'',
     str ''asemalle'', str ''asti'', str ''rakenne'', str ''kieli'', str ''maku'', str ''totuus'',
     str ''vaikeus'', str ''ryhm'' @ [228], str ''rajoittaa'', str ''p'' @ [228, 228],
     str ''liikkua'', str ''tunne'', str ''valoa'', str ''esimerkki'',
     str ''teht'' @ [228] @ str ''v'' @ [228, 228], str ''saattaa'', str ''odota'',
     str ''py'' @ [246] @ str ''r'' @ [228], str ''kauppa'',
     str ''is'' @ [228] @ str ''nt'' @ [228], str ''klassinen'', str ''vaihtoehto'',
     str ''aiheuttaa'', str ''agentti'', str ''koostuvat'', str ''taulukko'',
     str ''lentoyhti'' @ [246], str ''teksti'', str ''allas'',
     str ''k'' @ [228] @ str ''sity'' @ [246], str ''alue'', str ''polttoainetta'',
     str ''ty'' @ [246] @ str ''kalu'', str ''kumppani'', str ''ladata'',
     str ''sis'' @ [228, 228] @ str ''nk'' @ [228] @ str ''ynti'', str ''tallettaa'',
     str ''vihaa'', str ''artikla'', str ''video'', str ''kes'' @ [228], str ''ominaisuus'',
     [228, 228] @ str ''rimm'' @ [228] @ str ''inen'', str ''mobiili'', str ''sairaala'',
     str ''lento'', str ''syksy'', str ''el'' @ [228] @ str ''kett'' @ [228], str ''piano'',
     str ''ep'' @ [228] @ str ''onnistua'', str ''tulos'', str ''hieroa'', str ''aukko'',
     str ''j'' @ [228] @ str ''rjestelm'' @ [228], str ''raportti'', str ''ime'' @ [228],
     str ''tavallinen'', str ''tuuli'', str ''hermo'', str ''kysy'' @ [228], str ''loistaa'',
     str ''huomautus'', str ''linja'', [228] @ str ''iti'', str ''k'' @ [228] @ str ''sitys'',
     str ''veli'', str ''viite'', str ''mutka'', str ''veloittaa'', str ''hoitaa'',
     str ''temppu'', str ''termi'', str ''kotiteht'' @ [228] @ str ''v'' @ [228] @ str ''t'']"

definition WORD_LIST_13 :: "ustring list" where
  "WORD_LIST_13 =
    [str ''leipoa'', str ''tarjous'', str ''status'', str ''hanke'', str ''strategia'',
     str ''oranssi'', str ''anna'', str ''innostusta'', str ''vanhempi'',
     str ''keskitty'' @ [228], str ''laite'', str ''matkustaa'', str ''runous'',
     str ''liiketoimintaa'', str ''yhteiskuntaan'', str ''suudella'', str ''loppu'',
     str ''kasvis'', str ''k'' @ [228] @ str ''ytt'' @ [228, 228], str ''ajoittaa'',
     str ''tunnin'', str ''rohkea'', str ''keskitty'' @ [228],
     str ''k'' @ [228] @ str ''sitell'' @ [228], str ''elokuva'', str ''laitonta'',
     str ''yleist'' @ [228], str ''kahvia'', str ''ilmoitus'', str ''valtatie'', str ''kemia'',
     str ''psykologia'', str ''vuokraus'', str ''kello'', str ''konferenssi'', str ''helpotus'',
     str ''show'', str ''siisti'', str ''hauska'', str ''paino'', str ''laatu'', str ''klubi'',
     str ''tyt'' @ [228] @ str ''r'', str ''vy'' @ [246] @ str ''hyke'', str ''kosketa'',
     str ''t'' @ [228] @ str ''n'' @ [228] @ str '' iltana'',
     str ''j'' @ [228] @ str ''rkytt'' @ [228, 228], str ''polttaa'', str ''tekosyy'',
     str ''nimi'', str ''kyselyyn'', str ''maisema'', str ''etuk'' @ [228] @ str ''teen'',
     str ''tyytyv'' @ [228] @ str ''isyys'', str ''leip'' @ [228, 228], str ''katastrofi'',
     str ''kohde'', str ''hattu'', str ''ennen'', str ''ostoksilla'', str ''vierailla'',
     str ''it'' @ [228, 228] @ str ''n'', str ''kuva'', str ''kotiin'', str ''idea'',
     str ''is'' @ [228], str ''vertailu'', str ''kissa'', str ''putki'', str ''voittaja'',
     str ''laskea'', str ''j'' @ [228] @ str ''rvi'', str ''taistella'', str ''palkinto'',
     str ''perusta'', str ''koira'', str ''pit'' @ [228, 228], str ''ihanteellinen'',
     str ''tuuletin'', str ''kamppailua'', str ''huippu'', str ''turvallisuutta'',
     str ''ratkaisu'', str ''helvetti'',
     str ''johtop'' @ [228, 228] @ str ''t'' @ [246] @ str ''s'',
     str ''v'' @ [228] @ str ''est'' @ [246] @ str ''st'' @ [228], str ''rasitusta'',
     str ''h'' @ [228] @ str ''lytys'', str ''mittaus'', str ''toinen'', str ''kouluttaa'',
     str ''rotu'', str ''er'' @ [228, 228] @ str ''ntyy'', str ''vakuutus'', str ''pomo'',
     str ''puu'', str ''seurata'', str ''sairas'', str ''tietenkin'', str ''vet'' @ [228, 228]]"

definition WORD_LIST_14 :: "ustring list" where
  "WORD_LIST_14 =
    [str ''nimitt'' @ [228] @ str ''minen'', str ''viipale'', str ''edelleen'', str ''hoito'',
     str ''k'' @ [228] @ str ''rsiv'' @ [228] @ str ''llisyytt'' @ [228], str ''rikas'',
     str ''paeta'', str ''tunne'', str ''kuninkaallinen'', str ''naaras'', str ''lapsuus'',
     str ''hallitus'', str ''kuva'', str ''tahtoa'', str ''sukka'', str ''iso'', str ''portti'',
     [246] @ str ''ljy'', str ''ylitt'' @ [228, 228], str ''pin'', str ''parantaminen'',
     str ''mestaruus'', str ''typer'' @ [228], str ''auttaa'', str ''taivas'', str ''piki'',
     str ''mies'', str ''timantti'', str ''useimmat'', str ''siirtyminen'',
     str ''ty'' @ [246] @ str ''t'' @ [228], str ''tiede'', str ''komitea'', str ''hetki'',
     str ''korjata'', str ''opetusta'', str ''kaivaa'', str ''asiantuntija'',
     str ''monimutkainen'', str ''opas'', str ''ihmiset'', str ''kuollut'',
     [228, 228] @ str ''ni'', str ''alkuper'' @ [228] @ str ''inen'', str ''tauko'', str ''aihe'',
     str ''tiedot'', str ''tutkinnon'', str ''lukeminen'', str ''tallennus'', str ''nippu'',
     str ''tavoittaa'', str ''tuomio'', str ''valehdella'',
     str ''s'' @ [228, 228] @ str ''nn'' @ [246] @ str ''llinen'', str ''sarja'', str ''maalaus'',
     str ''tila'', str ''lista'', str ''pelaaja'', str ''karhu'', str ''pohjoinen'', str ''ihme'',
     str ''matto'', str ''raskas'', str ''upseeri'', str ''negatiivinen'', str ''kello'',
     str ''ainutlaatuinen'', str ''vauva'', str ''kipu'', str ''oletus'', str ''levy'',
     str ''rauta'', str ''laskuttaa'', str ''laatikko'', str ''Katso'', str ''kaksinkertainen'',
     str ''virhe'', str ''loppuun'', str ''tulevaisuutta'', str ''loistava'',
     str ''ota yhteytt'' @ [228], str ''matematiikka'', str ''riisi'',
     str ''l'' @ [228] @ str ''hte'' @ [228], str ''ravintola'', str ''alennus'',
     str ''seksi'' @ [228], str ''virus'', str ''bitti'', str ''luottaa'', str ''tapahtuma'',
     str ''k'' @ [228] @ str ''ytt'' @ [228, 228], str ''mehu'',
     str ''ep'' @ [228] @ str ''onnistuminen'', str ''bugi'', str ''yhteydess'' @ [228],
     str ''muta'', str ''koko'']"

definition WORD_LIST_15 :: "ustring list" where
  "WORD_LIST_15 =
    [str ''k'' @ [228, 228] @ str ''ri'', str ''tarkoitus'', str ''luonnos'', str ''paine'',
     str ''kakku'', str ''tumma'', str ''selitys'', str ''tilaa'', str ''kulma'', str ''sana'',
     str ''tehokkuutta'', str ''hallinta'', str ''tapa'', str ''t'' @ [228] @ str ''hti'',
     str ''mahdollisuus'', str ''l'' @ [246] @ str ''yt'' @ [228] @ str ''minen'',
     str ''kuljetus'', str ''seisomaan'', str ''kritiikki'' @ [228], str ''virtaus'', str ''ovi'',
     str ''vahinkoa'', str ''hy'' @ [246] @ str ''nteinen'', str ''yll'' @ [228] @ str ''tys'',
     str ''huoneisto'']"

definition WORD_LIST :: "ustring list" where
  "WORD_LIST =
     WORD_LIST_0 @ WORD_LIST_1 @ WORD_LIST_2 @ WORD_LIST_3 @ WORD_LIST_4 @ WORD_LIST_5 @ WORD_LIST_6 @ WORD_LIST_7 @
     WORD_LIST_8 @ WORD_LIST_9 @ WORD_LIST_10 @ WORD_LIST_11 @ WORD_LIST_12 @ WORD_LIST_13 @ WORD_LIST_14 @ WORD_LIST_15"

text \<open>
  \<open>random.sample(population, k)\<close> of the standard library: it raises \<open>ValueError\<close>
  unless \<open>0 \<le> k \<le> len(population)\<close>, and otherwise returns the entries at \<open>k\<close> positions
  that the generator picks without replacement. The picked positions are the argument
  \<open>picks\<close>; \<open>picks_ok\<close> says what every run of the generator guarantees of them.
\<close>

datatype error = ValueError

definition picks_ok :: "nat \<Rightarrow> int \<Rightarrow> nat list \<Rightarrow> bool" where
  "picks_ok n k picks \<longleftrightarrow> int (length picks) = k \<and> distinct picks \<and> list_all (\<lambda>i. i < n) picks"

definition sample :: "'a list \<Rightarrow> int \<Rightarrow> nat list \<Rightarrow> error + 'a list" where
  "sample population k picks =
     (if \<not> (0 \<le> k \<and> k \<le> int (length population)) then Inl ValueError
      else Inr (map (\<lambda>i. population ! i) picks))"

text \<open>\<^verbatim>\<open>return random.sample(WORD_LIST, k=num_keywords)\<close>\<close>

definition generate_keywords :: "int \<Rightarrow> nat list \<Rightarrow> error + ustring list" where
  "generate_keywords num_keywords picks = sample WORD_LIST num_keywords picks"

section \<open>Auxiliary notions\<close>

text \<open>
  Notions the proofs use: a character every match of a pattern contains, the characters
  of a match object's groups and of a template's literal text, and the stages of
  \<open>split_into_sentences\<close> under names of their own.
\<close>

fun must :: "nat \<Rightarrow> regex \<Rightarrow> bool" where
  "must c (Chr d) = (c = d)"
| "must c (Cls rs) = (rs = [(c, c)])"
| "must c (Cat a b) = (must c a \<or> must c b)"
| "must c (Alt a b) = (must c a \<and> must c b)"
| "must c (Grp a) = must c a"
| "must c (AtLeast n d) = (c = d \<and> 0 < n)"
| "must c _ = False"

definition mchars :: "mobj \<Rightarrow> nat set" where
  "mchars m = (\<Union>g\<in>set m. case g of None \<Rightarrow> {} | Some x \<Rightarrow> set x)"

fun lits :: "titem list \<Rightarrow> nat set" where
  "lits [] = {}"
| "lits (Lit l # t) = set l \<union> lits t"
| "lits (Ref n # t) = lits t"

definition pad :: "ustring \<Rightarrow> ustring" where
  "pad text = replace [10] (str '' '') (str '' '' @ text @ str ''  '')"

definition passes_a :: "(regex \<times> titem list) list" where
  "passes_a =
    [(PREFIXES, [Ref 1, Lit (str ''<prd>'')]),
     (WEBSITES, [Lit (str ''<prd>''), Ref 1]),
     (cats [DIGITS, dot, DIGITS], [Ref 1, Lit (str ''<prd>''), Ref 2])]"

definition passes_b :: "(regex \<times> titem list) list" where
  "passes_b =
    [(cats [Space, ALPHABETS, dot, Chr 32], [Lit (str '' ''), Ref 1, Lit (str ''<prd> '')]),
     (cats [ACRONYMS, Chr 32, STARTERS], [Ref 1, Lit (str ''<stop> ''), Ref 2]),
     (cats [ALPHABETS, dot, ALPHABETS, dot, ALPHABETS, dot],
      [Ref 1, Lit (str ''<prd>''), Ref 2, Lit (str ''<prd>''), Ref 3, Lit (str ''<prd>'')]),
     (cats [ALPHABETS, dot, ALPHABETS, dot], [Ref 1, Lit (str ''<prd>''), Ref 2, Lit (str ''<prd>'')]),
     (cats [Chr 32, SUFFIXES, dot, Chr 32, STARTERS],
      [Lit (str '' ''), Ref 1, Lit (str ''<stop> ''), Ref 2]),
     (cats [Chr 32, SUFFIXES, dot], [Lit (str '' ''), Ref 1, Lit (str ''<prd>'')]),
     (cats [Chr 32, ALPHABETS, dot], [Lit (str '' ''), Ref 1, Lit (str ''<prd>'')])]"

definition run_passes :: "(regex \<times> titem list) list \<Rightarrow> ustring \<Rightarrow> ustring" where
  "run_passes ps s = fold (\<lambda>(rx, t). sub_scan rx (expand t)) ps s"

definition phd :: "ustring \<Rightarrow> ustring" where
  "phd text = (if contains (str ''Ph.D'') text
               then replace (str ''Ph.D.'') (str ''Ph<prd>D<prd>'') text else text)"

definition mark :: "ustring \<Rightarrow> ustring" where
  "mark text =
     replace (str ''<prd>'') (str ''.'')
       (replace (str ''!'') (str ''!<stop>'')
         (replace (str ''?'') (str ''?<stop>'')
           (replace (str ''.'') (str ''.<stop>'') text)))"

definition finish :: "ustring \<Rightarrow> ustring list" where
  "finish text =
     (let sentences = map strip (split (str ''<stop>'') text)
      in if sentences \<noteq> [] \<and> last sentences = [] then butlast sentences else sentences)"

text \<open>
  The rule of the specification for a terminator \<open>p\<close> and a closing quote \<open>q\<close>: from the
  left, every \<open>p\<close> that stands immediately before a \<open>q\<close> changes places with it.
\<close>

fun swap_before :: "nat \<Rightarrow> nat \<Rightarrow> ustring \<Rightarrow> ustring" where
  "swap_before q p (a # b # s) =
     (if a = p \<and> b = q then q # p # swap_before q p s else a # swap_before q p (b # s))"
| "swap_before q p s = s"

text \<open>
  Notions for the character content of a text: the two markers, the text with its
  markers read back (\<open><prd>\<close> as a period, \<open><stop>\<close> as nothing), pieces in which every
  \<open><\<close> begins a marker and every \<open>>\<close> ends one, patterns that never consume a given
  character, templates that give a match back group by group, and the two rules of the
  function that change what a text holds, said to be idle on a text when they leave
  it as it reaches them.
\<close>

definition PRD :: ustring where
  "PRD = str ''<prd>''"

definition STOP :: ustring where
  "STOP = str ''<stop>''"

function unmark :: "ustring \<Rightarrow> ustring" where
  "unmark [] = []"
| "unmark (c # cs) =
     (if startswith PRD (c # cs) then 46 # unmark (drop 5 (c # cs))
      else if startswith STOP (c # cs) then unmark (drop 6 (c # cs))
      else c # unmark cs)"
  by pat_completeness auto

termination
  by (relation "measure length") auto

function wm :: "ustring \<Rightarrow> bool" where
  "wm [] = True"
| "wm (c # cs) =
     (if startswith PRD (c # cs) then wm (drop 5 (c # cs))
      else if startswith STOP (c # cs) then wm (drop 6 (c # cs))
      else c \<noteq> 60 \<and> c \<noteq> 62 \<and> wm cs)"
  by pat_completeness auto

termination
  by (relation "measure length") auto

fun avoids :: "nat \<Rightarrow> regex \<Rightarrow> bool" where
  "avoids c Eps = True"
| "avoids c (Chr d) = (c \<noteq> d)"
| "avoids c (Cls rs) = (\<not> in_ranges rs c)"
| "avoids c Space = (\<not> isspace c)"
| "avoids c (Cat a b) = (avoids c a \<and> avoids c b)"
| "avoids c (Alt a b) = (avoids c a \<and> avoids c b)"
| "avoids c (Opt a) = avoids c a"
| "avoids c (Grp a) = avoids c a"
| "avoids c (AtLeast n d) = (c \<noteq> d)"

definition marker_chars :: "nat set" where
  "marker_chars = {60, 112, 114, 100, 62, 115, 116, 111}"

definition tail_chars :: "nat set" where
  "tail_chars = {112, 114, 100, 62, 115, 116, 111}"

fun plain :: "regex \<Rightarrow> bool" where
  "plain Eps = True"
| "plain (Chr c) = True"
| "plain (Cls rs) = (length rs = 1 \<and> fst (hd rs) = snd (hd rs))"
| "plain Space = True"
| "plain (Cat a b) = (plain a \<and> plain b)"
| "plain (Grp a) = True"
| "plain _ = False"

fun canon :: "nat \<Rightarrow> regex \<Rightarrow> titem list" where
  "canon k (Chr c) = [Lit [c]]"
| "canon k (Cls rs) = [Lit [fst (hd rs)]]"
| "canon k Space = [Lit [32]]"
| "canon k (Cat a b) = canon k a @ canon (k + ngroups a) b"
| "canon k (Grp a) = [Ref k]"
| "canon k _ = []"

datatype sk = SG nat | SC nat

fun norm :: "(nat \<Rightarrow> bool) \<Rightarrow> titem list \<Rightarrow> sk list" where
  "norm P [] = []"
| "norm P (Lit l # t) = map SC (filter P (unmark l)) @ norm P t"
| "norm P (Ref n # t) = SG n # norm P t"

fun interp :: "(nat \<Rightarrow> bool) \<Rightarrow> sk list \<Rightarrow> mobj \<Rightarrow> ustring" where
  "interp P [] M = []"
| "interp P (SC c # t) M = c # interp P t M"
| "interp P (SG n # t) M = filter P (group M n) @ interp P t M"

fun lits_wm :: "titem list \<Rightarrow> bool" where
  "lits_wm [] = True"
| "lits_wm (Lit l # t) = (wm l \<and> lits_wm t)"
| "lits_wm (Ref n # t) = lits_wm t"

definition aligned :: "(nat \<Rightarrow> bool) \<Rightarrow> regex \<Rightarrow> titem list \<Rightarrow> bool" where
  "aligned P rx t \<longleftrightarrow>
     plain rx \<and> lits_wm t \<and> (\<exists>z \<in> lits t. z \<notin> tail_chars) \<and> norm P t = norm P (canon 1 rx)"

definition keeps :: "(nat \<Rightarrow> bool) \<Rightarrow> (ustring \<Rightarrow> ustring) \<Rightarrow> bool" where
  "keeps P F \<longleftrightarrow> (\<forall>s. filter P (unmark (F s)) = filter P (unmark s))"

definition nonspace :: "nat \<Rightarrow> bool" where
  "nonspace c \<longleftrightarrow> \<not> isspace c"

definition letter :: "nat \<Rightarrow> bool" where
  "letter c \<longleftrightarrow> \<not> isspace c \<and> c \<noteq> 46"

definition suffix_rule_idle :: "ustring \<Rightarrow> bool" where
  "suffix_rule_idle text \<longleftrightarrow>
     (let t = run_passes (take 4 passes_b) (phd (ellipsis (run_passes passes_a (pad text))))
      in sub_scan (cats [Chr 32, SUFFIXES, dot, Chr 32, STARTERS])
           (expand [Lit (str '' ''), Ref 1, Lit (str ''<stop> ''), Ref 2]) t = t)"

definition quote_rule_idle :: "ustring \<Rightarrow> bool" where
  "quote_rule_idle text \<longleftrightarrow>
     (let t = run_passes passes_b (phd (ellipsis (run_passes passes_a (pad text))))
      in swap_quotes t = t)"

text \<open>
  What the ellipsis rule writes for a run of \<open>n\<close> periods, and the functions that rewrite
  the text on either side of such a run without touching it.
\<close>

definition mrun :: "nat \<Rightarrow> ustring" where
  "mrun n = concat (replicate n (str ''<prd>'')) @ str ''<stop>''"

definition around :: "(ustring \<Rightarrow> ustring) \<Rightarrow> bool" where
  "around F \<longleftrightarrow> (\<forall>a b n. F (a @ mrun n @ b) = F a @ mrun n @ F b)"

section \<open>Facts about the string operations\<close>

lemma startswith_iff: "startswith p s \<longleftrightarrow> (\<exists>r. s = p @ r)"
  by (induction p s rule: startswith.induct) auto

lemma startswith_append [simp]: "startswith p (p @ r)"
  by (simp add: startswith_iff)

lemma startswith_drop: "startswith p s \<Longrightarrow> p @ drop (length p) s = s"
  by (auto simp: startswith_iff)

lemma startswith_not_mem: "c \<in> set p \<Longrightarrow> c \<notin> set s \<Longrightarrow> \<not> startswith p s"
  by (auto simp: startswith_iff)

lemma contains_iff: "contains m s \<longleftrightarrow> (\<exists>a b. s = a @ m @ b)"
proof (induction s)
  case Nil
  show ?case by auto
next
  case (Cons c cs)
  show ?case
  proof
    assume "contains m (c # cs)"
    then consider "startswith m (c # cs)" | "contains m cs" by auto
    then show "\<exists>a b. c # cs = a @ m @ b"
    proof cases
      case 1
      then obtain r where "c # cs = m @ r" by (auto simp: startswith_iff)
      then have "c # cs = [] @ m @ r" by simp
      then show ?thesis by blast
    next
      case 2
      then obtain a b where "cs = a @ m @ b" using Cons.IH by blast
      then have "c # cs = (c # a) @ m @ b" by simp
      then show ?thesis by blast
    qed
  next
    assume "\<exists>a b. c # cs = a @ m @ b"
    then obtain a b where ab: "c # cs = a @ m @ b" by blast
    show "contains m (c # cs)"
    proof (cases a)
      case Nil
      with ab have "startswith m (c # cs)" by (simp add: startswith_iff)
      then show ?thesis by simp
    next
      case (Cons x a')
      with ab have "cs = a' @ m @ b" by simp
      then show ?thesis using Cons.IH by auto
    qed
  qed
qed

lemma contains_not_mem: "c \<in> set m \<Longrightarrow> c \<notin> set s \<Longrightarrow> \<not> contains m s"
  by (auto simp: contains_iff)

lemma not_contains_Cons: "\<not> contains m (c # cs) \<Longrightarrow> \<not> contains m cs"
  by simp

lemma replace_id: "old \<noteq> [] \<Longrightarrow> \<not> contains old s \<Longrightarrow> replace old new s = s"
  by (induction s) auto

lemma replace_set: "set (replace old new s) \<subseteq> set s \<union> set new"
proof (induction old new s rule: replace.induct)
  case (1 old new)
  show ?case by auto
next
  case (2 old new c cs)
  show ?case
  proof (cases "old = []")
    case True
    with 2 show ?thesis by auto
  next
    case False
    show ?thesis
    proof (cases "startswith old (c # cs)")
      case True
      have "set (drop (length old) (c # cs)) \<subseteq> set (c # cs)" by (rule set_drop_subset)
      with 2(2)[OF False True] False True show ?thesis by auto
    next
      case no: False
      with 2(3)[OF False no] False show ?thesis by auto
    qed
  qed
qed

lemma replace_char: "replace [a] [b] s = map (\<lambda>c. if c = a then b else c) s"
  by (induction s) auto

lemma split_nonempty [simp]: "split sep s \<noteq> []"
  by (induction sep s rule: split.induct) (auto split: list.splits)

lemma split_id: "\<not> contains sep s \<Longrightarrow> split sep s = [s]"
  by (induction s) (auto split: list.splits)

lemma split_set: "p \<in> set (split sep s) \<Longrightarrow> set p \<subseteq> set s"
proof (induction sep s arbitrary: p rule: split.induct)
  case (1 sep)
  then show ?case by simp
next
  case (2 sep c cs)
  show ?case
  proof (cases "sep \<noteq> [] \<and> startswith sep (c # cs)")
    case True
    with 2(3) have "p = [] \<or> p \<in> set (split sep (drop (length sep) (c # cs)))" by auto
    then show ?thesis
    proof
      assume "p = []" then show ?thesis by simp
    next
      assume "p \<in> set (split sep (drop (length sep) (c # cs)))"
      then have "set p \<subseteq> set (drop (length sep) (c # cs))" using 2(1) True by blast
      also have "\<dots> \<subseteq> set (c # cs)" by (rule set_drop_subset)
      finally show ?thesis .
    qed
  next
    case False
    obtain q qs where q: "split sep cs = q # qs" by (cases "split sep cs") auto
    with False 2(3) have "p = c # q \<or> p \<in> set qs" by auto
    then show ?thesis
    proof
      assume "p = c # q"
      moreover have "set q \<subseteq> set cs" using 2(2)[OF False, of q] q by simp
      ultimately show ?thesis by auto
    next
      assume "p \<in> set qs"
      then have "set p \<subseteq> set cs" using 2(2)[OF False, of p] q by simp
      then show ?thesis by auto
    qed
  qed
qed

lemma strip_set: "set (strip s) \<subseteq> set s"
proof -
  have "set (strip s) \<subseteq> set (rev (dropWhile isspace s))"
    unfolding strip_def using set_dropWhileD by fastforce
  also have "\<dots> \<subseteq> set s" using set_dropWhileD by fastforce
  finally show ?thesis .
qed

lemma strip_blank: "\<forall>c\<in>set s. isspace c \<Longrightarrow> strip s = []"
proof -
  assume "\<forall>c\<in>set s. isspace c"
  then have h: "dropWhile isspace s = []" by (simp add: dropWhile_eq_Nil_conv)
  show ?thesis unfolding strip_def h by simp
qed

lemma dropWhile_pad: "\<forall>c\<in>set a. P c \<Longrightarrow> dropWhile P (a @ s) = dropWhile P s"
  by (induction a) auto

lemma strip_pad:
  assumes "\<forall>c\<in>set a. isspace c" and "\<forall>c\<in>set b. isspace c"
  shows "strip (a @ s @ b) = strip s"
proof -
  have 1: "dropWhile isspace (a @ s @ b) = dropWhile isspace (s @ b)"
    using assms(1) by (rule dropWhile_pad)
  show ?thesis
  proof (cases "\<forall>c\<in>set s. isspace c")
    case True
    then have "strip (a @ s @ b) = []" using assms by (intro strip_blank) auto
    moreover have "strip s = []" using True by (rule strip_blank)
    ultimately show ?thesis by simp
  next
    case False
    then have 2: "dropWhile isspace (s @ b) = dropWhile isspace s @ b"
      by (auto simp: dropWhile_append1)
    have 3: "dropWhile isspace (rev b @ rev (dropWhile isspace s))
      = dropWhile isspace (rev (dropWhile isspace s))"
      using assms(2) by (intro dropWhile_pad) simp
    show ?thesis by (simp add: strip_def 1 2 3)
  qed
qed

section \<open>Facts about the matcher and the scan\<close>

lemma matches_suffix: "(g, r) \<in> set (matches rx s) \<Longrightarrow> \<exists>m. s = m @ r"
proof (induction rx arbitrary: s g r)
  case (Cat a b)
  then obtain g1 r1 g2 where 1: "(g1, r1) \<in> set (matches a s)" and 2: "(g2, r) \<in> set (matches b r1)"
    by auto
  from Cat.IH(1)[OF 1] obtain m1 where "s = m1 @ r1" ..
  moreover from Cat.IH(2)[OF 2] obtain m2 where "r1 = m2 @ r" ..
  ultimately have "s = (m1 @ m2) @ r" by simp
  then show ?case ..
next
  case (AtLeast n c)
  then obtain j where "r = drop j s" by (auto simp: Let_def)
  then have "s = take j s @ r" by simp
  then show ?case ..
qed (auto split: list.splits if_splits)

lemma matches_length: "(g, r) \<in> set (matches rx s) \<Longrightarrow> length r \<le> length s"
  using matches_suffix by fastforce

lemma matches_ngroups: "(g, r) \<in> set (matches rx s) \<Longrightarrow> length g = ngroups rx"
  by (induction rx arbitrary: s g r) (auto split: list.splits if_splits simp: Let_def)

lemma matches_must:
  "must c rx \<Longrightarrow> (g, r) \<in> set (matches rx s) \<Longrightarrow> c \<in> set (take (length s - length r) s)"
proof (induction rx arbitrary: s g r)
  case (Cat a b)
  from Cat.prems(2) obtain g1 r1 g2 where 1: "(g1, r1) \<in> set (matches a s)"
    and 2: "(g2, r) \<in> set (matches b r1)" by auto
  from matches_suffix[OF 1] obtain m1 where m1: "s = m1 @ r1" ..
  from matches_suffix[OF 2] obtain m2 where m2: "r1 = m2 @ r" ..
  have tk: "take (length s - length r) s = m1 @ m2" using m1 m2 by simp
  have tk1: "take (length s - length r1) s = m1" using m1 by simp
  have tk2: "take (length r1 - length r) r1 = m2" using m2 by simp
  from Cat.prems(1) have "must c a \<or> must c b" by simp
  then show ?case
  proof
    assume "must c a"
    from Cat.IH(1)[OF this 1] show ?thesis using tk tk1 by simp
  next
    assume "must c b"
    from Cat.IH(2)[OF this 2] show ?thesis using tk tk2 by simp
  qed
next
  case (AtLeast n d)
  then obtain j where j: "r = drop j s" "n \<le> j" "j \<le> length (takeWhile (\<lambda>x. x = d) s)"
    by (auto simp: Let_def)
  from AtLeast.prems(1) have cd: "c = d" and n: "0 < n" by auto
  have jl: "j \<le> length s" using j(3) length_takeWhile_le[of "\<lambda>x. x = d" s] by linarith
  have "0 < j" using n j(2) by simp
  then obtain x xs where s: "s = x # xs" using jl by (cases s) auto
  have "x = d" using j(3) \<open>0 < j\<close> s by (auto split: if_splits)
  moreover have "take (length s - length r) s = take j s" using j(1) jl by simp
  ultimately show ?case using s cd \<open>0 < j\<close> by (cases j) auto
qed (auto split: list.splits if_splits)

lemma matches_none: "must c rx \<Longrightarrow> c \<notin> set s \<Longrightarrow> matches rx s = []"
proof (rule ccontr)
  assume m: "must c rx" and c: "c \<notin> set s" and "matches rx s \<noteq> []"
  then obtain g r where "(g, r) \<in> set (matches rx s)" by (cases "matches rx s") auto
  from matches_must[OF m this] have "c \<in> set s" by (meson in_set_takeD)
  with c show False ..
qed

lemma sub_scan_id: "must c rx \<Longrightarrow> c \<notin> set s \<Longrightarrow> sub_scan rx f s = s"
  by (induction s) (simp_all add: matches_none)

lemma matches_groups:
  "(g, r) \<in> set (matches rx s) \<Longrightarrow> Some x \<in> set g \<Longrightarrow> set x \<subseteq> set s"
proof (induction rx arbitrary: s g r)
  case (Cat a b)
  from Cat.prems(1) obtain g1 r1 g2 where 1: "(g1, r1) \<in> set (matches a s)"
    and 2: "(g2, r) \<in> set (matches b r1)" and g: "g = g1 @ g2" by auto
  from matches_suffix[OF 1] have "set r1 \<subseteq> set s" by auto
  with Cat.IH(1)[OF 1] Cat.IH(2)[OF 2] Cat.prems(2) g show ?case by auto
next
  case (Grp a)
  from Grp.prems(1) obtain g' where 1: "(g', r) \<in> set (matches a s)"
    and g: "g = Some (take (length s - length r) s) # g'" by auto
  from Grp.prems(2) g have "x = take (length s - length r) s \<or> Some x \<in> set g'" by auto
  then show ?case using Grp.IH[OF 1] by (auto dest: in_set_takeD)
next
  case (Alt a b)
  from Alt.prems(1) consider g' where "(g', r) \<in> set (matches a s)" "g = g' @ replicate (ngroups b) None"
    | g' where "(g', r) \<in> set (matches b s)" "g = replicate (ngroups a) None @ g'" by auto
  then show ?case
  proof cases
    case 1
    with Alt.prems(2) have "Some x \<in> set g'" by auto
    with Alt.IH(1) 1(1) show ?thesis by blast
  next
    case 2
    with Alt.prems(2) have "Some x \<in> set g'" by auto
    with Alt.IH(2) 2(1) show ?thesis by blast
  qed
next
  case (Opt a)
  from Opt.prems(1) consider "(g, r) \<in> set (matches a s)" | "g = replicate (ngroups a) None" by auto
  then show ?case
  proof cases
    case 1
    with Opt.IH Opt.prems(2) show ?thesis by blast
  next
    case 2
    with Opt.prems(2) show ?thesis by auto
  qed
qed (auto split: list.splits if_splits simp: Let_def)

lemma matches_mchars: "(g, r) \<in> set (matches rx s) \<Longrightarrow> mchars g \<subseteq> set s"
  unfolding mchars_def using matches_groups by (fastforce split: option.splits)

lemma mchars_Cons: "mchars (Some x # g) = set x \<union> mchars g"
  by (simp add: mchars_def)

lemma group_mchars: "set (group m n) \<subseteq> mchars m"
proof (cases "n < length m")
  case True
  show ?thesis
  proof (cases "m ! n")
    case None
    with True show ?thesis by (simp add: group_def)
  next
    case (Some g)
    have "m ! n \<in> set m" using True by simp
    with Some have "Some g \<in> set m" by simp
    then have "set g \<subseteq> mchars m" unfolding mchars_def by force
    with True Some show ?thesis by (simp add: group_def)
  qed
next
  case False
  then show ?thesis by (simp add: group_def)
qed

lemma expand_set: "set (expand t m) \<subseteq> lits t \<union> mchars m"
  using group_mchars by (induction t m rule: expand.induct) auto

lemma sub_scan_set:
  assumes f: "\<And>m. set (f m) \<subseteq> A \<union> mchars m"
  shows "set (sub_scan rx f s) \<subseteq> A \<union> set s"
  using f
proof (induction rx f s rule: sub_scan.induct)
  case (1 r f)
  show ?case
  proof (cases "matches r []")
    case Nil
    then show ?thesis by simp
  next
    case (Cons a as)
    obtain g rest where a: "a = (g, rest)" by (cases a)
    with Cons have "(g, rest) \<in> set (matches r [])" by simp
    then have "mchars g \<subseteq> {}" using matches_mchars by fastforce
    with 1[of "Some [] # g"] Cons a show ?thesis by (auto simp: mchars_Cons)
  qed
next
  case (2 r f c cs)
  show ?case
  proof (cases "matches r (c # cs)")
    case Nil
    with 2(1)[OF Nil 2(4)] show ?thesis by auto
  next
    case (Cons a as)
    obtain g rest where a: "a = (g, rest)" by (cases a)
    with Cons have in_m: "(g, rest) \<in> set (matches r (c # cs))" by simp
    have gs: "mchars g \<subseteq> set (c # cs)" using in_m by (rule matches_mchars)
    from matches_suffix[OF in_m] obtain m0 where "c # cs = m0 @ rest" ..
    then have "set (c # cs) = set m0 \<union> set rest" by (metis set_append)
    then have rs: "set rest \<subseteq> set (c # cs)" by blast
    show ?thesis
    proof (cases "length rest < length (c # cs)")
      case True
      let ?m = "Some (take (length (c # cs) - length rest) (c # cs)) # g"
      have "mchars ?m \<subseteq> set (c # cs)"
        using gs by (auto simp: mchars_Cons dest: in_set_takeD)
      with 2(4)[of ?m] have "set (f ?m) \<subseteq> A \<union> set (c # cs)" by blast
      moreover have "set (sub_scan r f rest) \<subseteq> A \<union> set rest"
        using 2(2)[OF Cons a[symmetric] True 2(4)] .
      ultimately show ?thesis using Cons a True rs by auto
    next
      case False
      have "mchars (Some [] # g) \<subseteq> set (c # cs)" using gs by (simp add: mchars_Cons)
      with 2(4)[of "Some [] # g"] have "set (f (Some [] # g)) \<subseteq> A \<union> set (c # cs)" by blast
      moreover have "set (sub_scan r f cs) \<subseteq> A \<union> set cs"
        using 2(3)[OF Cons a[symmetric] False 2(4)] .
      ultimately show ?thesis using Cons a False by auto
    qed
  qed
qed

lemma re_sub_set:
  "re_sub rx t s = Some s' \<Longrightarrow> set s' \<subseteq> lits t \<union> set s"
  using sub_scan_set[of "expand t" "lits t" rx s] expand_set
  by (auto simp: re_sub_def split: if_splits)

section \<open>The stages of the function\<close>

lemmas pattern_defs = PREFIXES_def WEBSITES_def DIGITS_def ALPHABETS_def ACRONYMS_def
  STARTERS_def SUFFIXES_def MULTIPLE_DOTS_def dot_def

lemma templates_ok: "\<forall>(rx, t) \<in> set (passes_a @ passes_b). template_ok rx t"
  by (simp add: passes_a_def passes_b_def pattern_defs)

lemma split_into_sentences_stages:
  "split_into_sentences text =
     Some (finish (mark (swap_quotes (run_passes passes_b (phd (ellipsis
       (run_passes passes_a (pad text))))))))"
  using templates_ok
  by (simp add: split_into_sentences_def re_sub_def passes_a_def passes_b_def run_passes_def
      pad_def phd_def mark_def finish_def Let_def)

lemma pad_eq: "pad text = 32 # map (\<lambda>c. if c = 10 then 32 else c) text @ [32, 32]"
  by (simp add: pad_def str_def replace_char)

lemma startswith_snoc:
  "x \<notin> set m \<Longrightarrow> startswith m (s @ [x]) \<longleftrightarrow> startswith m s"
  by (induction m s rule: startswith.induct) auto

lemma contains_snoc:
  "x \<notin> set m \<Longrightarrow> m \<noteq> [] \<Longrightarrow> contains m (s @ [x]) \<longleftrightarrow> contains m s"
proof (induction s)
  case Nil
  then show ?case by (cases m) auto
next
  case (Cons c cs)
  have "startswith m ((c # cs) @ [x]) \<longleftrightarrow> startswith m (c # cs)"
    using Cons.prems(1) by (rule startswith_snoc)
  with Cons show ?case by simp
qed

lemma contains_Cons_other:
  "x \<notin> set m \<Longrightarrow> m \<noteq> [] \<Longrightarrow> contains m (x # s) \<longleftrightarrow> contains m s"
  by (cases m) auto

lemma startswith_map:
  "(\<And>c x. c \<in> set m \<Longrightarrow> f x = c \<longleftrightarrow> x = c) \<Longrightarrow> startswith m (map f s) \<longleftrightarrow> startswith m s"
proof (induction m s rule: startswith.induct)
  case (3 p ps c cs)
  have "(p = f c) = (p = c)" using 3(2)[of p c] by auto
  moreover have "startswith ps (map f cs) = startswith ps cs" using 3 by simp
  ultimately show ?case by simp
qed auto

lemma contains_map:
  assumes "\<And>c x. c \<in> set m \<Longrightarrow> f x = c \<longleftrightarrow> x = c"
  shows "contains m (map f s) \<longleftrightarrow> contains m s"
proof (induction s)
  case Nil
  show ?case by simp
next
  case (Cons c cs)
  have "startswith m (map f (c # cs)) \<longleftrightarrow> startswith m (c # cs)"
    using assms by (rule startswith_map)
  with Cons show ?case by simp
qed

lemma contains_pad:
  assumes "32 \<notin> set m" "10 \<notin> set m" "m \<noteq> []"
  shows "contains m (pad text) \<longleftrightarrow> contains m text"
proof -
  let ?f = "\<lambda>c::nat. if c = 10 then 32 else c"
  have "pad text = 32 # ((map ?f text @ [32]) @ [32])"
    by (simp add: pad_eq)
  then have "contains m (pad text) \<longleftrightarrow> contains m ((map ?f text @ [32]) @ [32])"
    using assms contains_Cons_other[of 32 m] by simp
  also have "\<dots> \<longleftrightarrow> contains m (map ?f text @ [32])"
    using assms by (intro contains_snoc)
  also have "\<dots> \<longleftrightarrow> contains m (map ?f text)"
    using assms by (intro contains_snoc)
  also have "\<dots> \<longleftrightarrow> contains m text"
    using assms by (intro contains_map) auto
  finally show ?thesis .
qed

lemma set_pad: "set (pad text) \<subseteq> insert 32 (set text - {10})"
  by (auto simp: pad_eq)

lemma strip_pad_eq: "strip (pad text) = strip (replace [10] (str '' '') text)"
proof -
  have "pad text = [32] @ replace [10] (str '' '') text @ [32, 32]"
    by (simp add: pad_eq replace_char str_def)
  moreover have "\<forall>c\<in>set [32::nat]. isspace c" "\<forall>c\<in>set [32::nat, 32]. isspace c"
    by (simp_all add: isspace_def)
  ultimately show ?thesis using strip_pad by metis
qed

lemma run_passes_id:
  "\<forall>(rx, t) \<in> set ps. must c rx \<Longrightarrow> c \<notin> set s \<Longrightarrow> run_passes ps s = s"
  unfolding run_passes_def by (induction ps) (auto simp: sub_scan_id)

lemma musts: "\<forall>(rx, t) \<in> set (passes_a @ passes_b). must 46 rx"
  by (simp add: passes_a_def passes_b_def pattern_defs)

lemma ellipsis_id: "46 \<notin> set s \<Longrightarrow> ellipsis s = s"
  unfolding ellipsis_def by (rule sub_scan_id) (simp_all add: MULTIPLE_DOTS_def)

lemma phd_id: "46 \<notin> set s \<Longrightarrow> phd s = s"
  unfolding phd_def by (simp add: replace_id contains_not_mem[of 46] str_def)

lemma swap_quotes_id:
  assumes "46 \<notin> set s" "33 \<notin> set s" "63 \<notin> set s"
  shows "swap_quotes s = s"
proof -
  have 1: "replace (str ''.'' @ [q]) new s = s" for q new
    using assms(1) by (intro replace_id) (auto simp: str_def contains_not_mem[of 46])
  have 2: "replace (str ''!'' @ [q]) new s = s" for q new
    using assms(2) by (intro replace_id) (auto simp: str_def contains_not_mem[of 33])
  have 3: "replace (str ''?'' @ [q]) new s = s" for q new
    using assms(3) by (intro replace_id) (auto simp: str_def contains_not_mem[of 63])
  show ?thesis by (simp add: swap_quotes_def Let_def 1 2 3)
qed

lemma mark_id:
  assumes "46 \<notin> set s" "33 \<notin> set s" "63 \<notin> set s" "\<not> contains (str ''<prd>'') s"
  shows "mark s = s"
proof -
  have 1: "replace (str ''.'') new s = s" for new
    using assms(1) by (intro replace_id) (auto simp: str_def contains_not_mem[of 46])
  have 2: "replace (str ''?'') new s = s" for new
    using assms(3) by (intro replace_id) (auto simp: str_def contains_not_mem[of 63])
  have 3: "replace (str ''!'') new s = s" for new
    using assms(2) by (intro replace_id) (auto simp: str_def contains_not_mem[of 33])
  have 4: "replace (str ''<prd>'') new s = s" for new
    using assms(4) by (intro replace_id) (auto simp: str_def)
  show ?thesis by (simp add: mark_def 1 2 3 4)
qed

lemma finish_single:
  "\<not> contains (str ''<stop>'') s \<Longrightarrow> finish s = (if strip s = [] then [] else [strip s])"
  by (simp add: finish_def split_id)

lemma plain_text:
  assumes "46 \<notin> set text" "33 \<notin> set text" "63 \<notin> set text"
    and "\<not> contains (str ''<prd>'') text" "\<not> contains (str ''<stop>'') text"
  shows "split_into_sentences text =
    Some (if strip (replace [10] (str '' '') text) = [] then []
          else [strip (replace [10] (str '' '') text)])"
proof -
  let ?p = "pad text"
  have d: "46 \<notin> set ?p" and b: "33 \<notin> set ?p" and q: "63 \<notin> set ?p"
    using assms(1-3) set_pad[of "text"] by auto
  have prd: "\<not> contains (str ''<prd>'') ?p"
    using assms(4) by (subst contains_pad) (simp_all add: str_def)
  have stop: "\<not> contains (str ''<stop>'') ?p"
    using assms(5) by (subst contains_pad) (simp_all add: str_def)
  have a: "run_passes passes_a ?p = ?p" using musts d by (intro run_passes_id[of _ 46]) auto
  have bb: "run_passes passes_b ?p = ?p" using musts d by (intro run_passes_id[of _ 46]) auto
  have "split_into_sentences text = Some (finish ?p)"
    by (simp add: split_into_sentences_stages a bb ellipsis_id[OF d] phd_id[OF d]
        swap_quotes_id[OF d b q] mark_id[OF d b q prd])
  then show ?thesis by (simp add: finish_single[OF stop] strip_pad_eq)
qed

lemma replace_avoid: "c \<notin> set new \<Longrightarrow> c \<notin> set s \<Longrightarrow> c \<notin> set (replace old new s)"
  using replace_set[of old new s] by auto

lemma run_passes_avoid:
  "\<forall>(rx, t) \<in> set ps. c \<notin> lits t \<Longrightarrow> c \<notin> set s \<Longrightarrow> c \<notin> set (run_passes ps s)"
proof (induction ps arbitrary: s)
  case Nil
  then show ?case by (simp add: run_passes_def)
next
  case (Cons p ps)
  obtain rx t where p: "p = (rx, t)" by (cases p)
  have "set (sub_scan rx (expand t) s) \<subseteq> lits t \<union> set s"
    using expand_set by (intro sub_scan_set)
  with Cons.prems p have "c \<notin> set (sub_scan rx (expand t) s)" by auto
  moreover have "\<forall>(rx, t) \<in> set ps. c \<notin> lits t" using Cons.prems(1) by simp
  ultimately have "c \<notin> set (run_passes ps (sub_scan rx (expand t) s))" by (intro Cons.IH)
  then show ?case by (simp add: run_passes_def p)
qed

lemma lits_no_newline: "\<forall>(rx, t) \<in> set (passes_a @ passes_b). 10 \<notin> lits t"
  by (simp add: passes_a_def passes_b_def str_def)

lemma ellipsis_set: "set (ellipsis s) \<subseteq> set (str ''<prd><stop>'') \<union> set s"
  unfolding ellipsis_def
proof (rule sub_scan_set)
  fix m :: mobj
  have "set (concat (replicate n (str ''<prd>''))) \<subseteq> set (str ''<prd>'')" for n
    by (induction n) auto
  then show "set (concat (replicate (length (group m 0)) (str ''<prd>'')) @ str ''<stop>'')
    \<subseteq> set (str ''<prd><stop>'') \<union> mchars m"
    by (auto simp: str_def)
qed

lemma ellipsis_no_newline: "10 \<notin> set s \<Longrightarrow> 10 \<notin> set (ellipsis s)"
  using ellipsis_set[of s] by (auto simp: str_def)

lemma phd_no_newline: "10 \<notin> set s \<Longrightarrow> 10 \<notin> set (phd s)"
  by (simp add: phd_def replace_avoid str_def)

lemma swap_quotes_no_newline: "10 \<notin> set s \<Longrightarrow> 10 \<notin> set (swap_quotes s)"
  by (simp add: swap_quotes_def Let_def replace_avoid str_def)

lemma mark_no_newline: "10 \<notin> set s \<Longrightarrow> 10 \<notin> set (mark s)"
  by (simp add: mark_def replace_avoid str_def)

lemma finish_set: "s \<in> set (finish t) \<Longrightarrow> set s \<subseteq> set t"
proof -
  assume "s \<in> set (finish t)"
  then have "s \<in> set (map strip (split (str ''<stop>'') t))"
    by (auto simp: finish_def Let_def split: if_splits dest: in_set_butlastD)
  then obtain p where "p \<in> set (split (str ''<stop>'') t)" "s = strip p" by auto
  then show ?thesis using split_set[of p] strip_set[of p] by blast
qed

lemma no_dot_stages:
  "46 \<notin> set text \<Longrightarrow> split_into_sentences text = Some (finish (mark (swap_quotes (pad text))))"
proof -
  assume "46 \<notin> set text"
  then have d: "46 \<notin> set (pad text)" using set_pad[of "text"] by auto
  have a: "run_passes passes_a (pad text) = pad text"
    using musts d by (intro run_passes_id[of _ 46]) auto
  have b: "run_passes passes_b (pad text) = pad text"
    using musts d by (intro run_passes_id[of _ 46]) auto
  show ?thesis
    by (simp add: split_into_sentences_stages a b ellipsis_id[OF d] phd_id[OF d])
qed

section \<open>The pass over the runs of periods\<close>

lemma ellipsis_Nil: "ellipsis [] = []"
  by (simp add: ellipsis_def MULTIPLE_DOTS_def)

lemma group_whole: "group (Some x # g) 0 = x"
  by (simp add: group_def)

lemma ellipsis_Cons:
  "ellipsis (c # cs) =
     (if 2 \<le> length (takeWhile (\<lambda>x. x = 46) (c # cs))
      then concat (replicate (length (takeWhile (\<lambda>x. x = 46) (c # cs))) (str ''<prd>'')) @
           str ''<stop>'' @ ellipsis (drop (length (takeWhile (\<lambda>x. x = 46) (c # cs))) (c # cs))
      else c # ellipsis cs)"
proof -
  define s where "s = c # cs"
  define k where "k = length (takeWhile (\<lambda>x. x = 46) s)"
  have kl: "k \<le> length s" unfolding k_def by (rule length_takeWhile_le)
  have eq: "sub_scan MULTIPLE_DOTS f s =
      (case matches MULTIPLE_DOTS s of
         [] \<Rightarrow> c # sub_scan MULTIPLE_DOTS f cs
       | (g, rest) # _ \<Rightarrow>
           if length rest < length s
           then f (Some (take (length s - length rest) s) # g) @ sub_scan MULTIPLE_DOTS f rest
           else f (Some [] # g) @ c # sub_scan MULTIPLE_DOTS f cs)" for f
    unfolding s_def by (rule sub_scan.simps(2))
  have ms: "matches MULTIPLE_DOTS s = map (\<lambda>j. ([], drop j s)) (rev [2..<Suc k])"
    unfolding MULTIPLE_DOTS_def matches.simps Let_def k_def ..
  have "ellipsis s =
     (if 2 \<le> k then concat (replicate k (str ''<prd>'')) @ str ''<stop>'' @ ellipsis (drop k s)
      else c # ellipsis cs)"
  proof (cases "2 \<le> k")
    case True
    then have "rev [2..<Suc k] = k # rev [2..<k]" by simp
    then have m: "matches MULTIPLE_DOTS s = ([], drop k s) # map (\<lambda>j. ([], drop j s)) (rev [2..<k])"
      unfolding ms by simp
    have lt: "length (drop k s) < length s" using True kl by simp
    have tk: "length (take (length s - length (drop k s)) s) = k" using kl by simp
    have "sub_scan MULTIPLE_DOTS f s =
       f [Some (take (length s - length (drop k s)) s)] @ sub_scan MULTIPLE_DOTS f (drop k s)" for f
      unfolding eq m using lt by (simp only: list.case prod.case if_True)
    then show ?thesis
      unfolding ellipsis_def using True by (simp only: group_whole tk if_True append_assoc)
  next
    case False
    then have "rev [2..<Suc k] = []" by simp
    then have m: "matches MULTIPLE_DOTS s = []" unfolding ms by simp
    have "sub_scan MULTIPLE_DOTS f s = c # sub_scan MULTIPLE_DOTS f cs" for f
      unfolding eq m by (simp only: list.case)
    then show ?thesis unfolding ellipsis_def using False by (simp only: if_False)
  qed
  then show ?thesis unfolding k_def s_def .
qed

lemma takeWhile_run:
  "post = [] \<or> hd post \<noteq> c \<Longrightarrow> takeWhile (\<lambda>x. x = c) (replicate n c @ post) = replicate n c"
  by (induction n) (auto simp: takeWhile_eq_Nil_iff)

lemma ellipsis_at_run:
  assumes "2 \<le> n" and "post = [] \<or> hd post \<noteq> 46"
  shows "ellipsis (replicate n 46 @ post) =
    concat (replicate n (str ''<prd>'')) @ str ''<stop>'' @ ellipsis post"
proof -
  obtain cs where s: "replicate n 46 @ post = 46 # cs" using assms(1) by (cases n) auto
  have tw: "takeWhile (\<lambda>x. x = 46) (46 # cs) = replicate n 46"
    using takeWhile_run[OF assms(2), of n] s by simp
  have "drop n (46 # cs) = post" using s by (metis append_eq_conv_conj length_replicate)
  then show ?thesis unfolding s ellipsis_Cons tw using assms(1) by simp
qed

lemma ellipsis_before_run:
  assumes "pre = [] \<or> last pre \<noteq> 46"
  shows "ellipsis (pre @ s) = ellipsis pre @ ellipsis s"
  using assms
proof (induction pre rule: length_induct)
  case (1 pre)
  show ?case
  proof (cases pre)
    case Nil
    then show ?thesis by (simp add: ellipsis_Nil)
  next
    case (Cons c cs)
    then have nd: "last pre \<noteq> 46" using 1(2) by simp
    have "last pre \<in> set pre" using Cons by simp
    then have tw: "takeWhile (\<lambda>x. x = 46) (pre @ s) = takeWhile (\<lambda>x. x = 46) pre"
      using nd by (intro takeWhile_append1) auto
    define k where "k = length (takeWhile (\<lambda>x. x = 46) pre)"
    have kl: "k \<le> length pre" unfolding k_def by (rule length_takeWhile_le)
    have dr: "drop k (pre @ s) = drop k pre @ s" using kl by simp
    have kne: "k \<noteq> length pre"
    proof
      assume "k = length pre"
      then have "takeWhile (\<lambda>x. x = 46) pre = pre"
        unfolding k_def by (metis takeWhile_eq_take take_all order_refl)
      then have "\<forall>x\<in>set pre. x = 46" by (metis set_takeWhileD)
      with \<open>last pre \<in> set pre\<close> nd show False by blast
    qed
    show ?thesis
    proof (cases "2 \<le> k")
      case True
      let ?r = "drop k pre"
      have "?r \<noteq> []" using kl kne by simp
      then have "last ?r = last pre" using kl by (simp add: last_drop)
      then have "?r = [] \<or> last ?r \<noteq> 46" using nd by simp
      moreover have "length ?r < length pre" using True Cons by simp
      ultimately have IH: "ellipsis (?r @ s) = ellipsis ?r @ ellipsis s" using 1(1) by blast
      have "ellipsis (pre @ s) = concat (replicate k (str ''<prd>'')) @ str ''<stop>'' @
          ellipsis (drop k pre @ s)"
        using True ellipsis_Cons[of c "cs @ s"] tw dr unfolding Cons k_def by simp
      moreover have "ellipsis pre = concat (replicate k (str ''<prd>'')) @ str ''<stop>'' @
          ellipsis (drop k pre)"
        using True ellipsis_Cons[of c cs] unfolding Cons k_def by simp
      ultimately show ?thesis using IH by simp
    next
      case False
      have "cs \<noteq> [] \<or> c \<noteq> 46" using nd Cons by auto
      have cs: "cs = [] \<or> last cs \<noteq> 46" using nd Cons by auto
      have "length cs < length pre" using Cons by simp
      with 1(1) cs have IH: "ellipsis (cs @ s) = ellipsis cs @ ellipsis s" by blast
      have "ellipsis (pre @ s) = c # ellipsis (cs @ s)"
        using False ellipsis_Cons[of c "cs @ s"] tw unfolding Cons k_def by simp
      moreover have "ellipsis pre = c # ellipsis cs"
        using False ellipsis_Cons[of c cs] unfolding Cons k_def by simp
      ultimately show ?thesis using IH by simp
    qed
  qed
qed

lemma restore_run:
  "replace (str ''<prd>'') (str ''.'') (concat (replicate n (str ''<prd>'')) @ str ''<stop>'' @ rest)
    = replicate n 46 @ str ''<stop>'' @ replace (str ''<prd>'') (str ''.'') rest"
  by (induction n) (simp_all add: str_def)

lemma split_after_run:
  "split (str ''<stop>'') (replicate n 46 @ str ''<stop>'' @ rest)
    = replicate n 46 # split (str ''<stop>'') rest"
  by (induction n) (simp_all add: str_def)

section \<open>The pass over the closing quotes\<close>

lemma replace_pair: "replace [p, q] [q, p] s = swap_before q p s"
  by (induction q p s rule: swap_before.induct) auto

lemma guarded_replace:
  "c \<in> set old \<Longrightarrow> old \<noteq> [] \<Longrightarrow> (if contains [c] s then replace old new s else s) = replace old new s"
proof -
  assume c: "c \<in> set old" and ne: "old \<noteq> []"
  show ?thesis
  proof (cases "contains [c] s")
    case True
    then show ?thesis by simp
  next
    case False
    then have "c \<notin> set s" by (induction s) auto
    with c have "\<not> contains old s" by (rule contains_not_mem)
    with ne False show ?thesis by (simp add: replace_id)
  qed
qed

lemma guarded_swap:
  "(if contains [c] s then replace [p, q] [q, p] s else s) = swap_before q p s"
  if "c = p \<or> c = q"
proof -
  have "(if contains [c] s then replace [p, q] [q, p] s else s) = replace [p, q] [q, p] s"
    using that by (intro guarded_replace) auto
  also have "\<dots> = swap_before q p s" by (rule replace_pair)
  finally show ?thesis .
qed

lemma swap_quotes_rules:
  "swap_quotes text =
     swap_before 34 63 (swap_before 34 33 (swap_before 34 46 (swap_before 8221 46 text)))"
proof -
  have e: "str ''.'' = [46]" "str ''!'' = [33]" "str ''?'' = [63]"
    by (simp_all add: str_def)
  have 1: "(if contains [8221] s then replace (str ''.'' @ [8221]) (8221 # str ''.'') s else s)
      = swap_before 8221 46 s" for s
    unfolding e append_Cons append_Nil by (rule guarded_swap) simp
  have 2: "(if contains [34] s then replace (str ''.'' @ [34]) (34 # str ''.'') s else s)
      = swap_before 34 46 s" for s
    unfolding e append_Cons append_Nil by (rule guarded_swap) simp
  have 3: "(if contains (str ''!'') s then replace (str ''!'' @ [34]) (34 # str ''!'') s else s)
      = swap_before 34 33 s" for s
    unfolding e append_Cons append_Nil by (rule guarded_swap) simp
  have 4: "(if contains (str ''?'') s then replace (str ''?'' @ [34]) (34 # str ''?'') s else s)
      = swap_before 34 63 s" for s
    unfolding e append_Cons append_Nil by (rule guarded_swap) simp
  show ?thesis unfolding swap_quotes_def Let_def by (simp only: 1 2 3 4)
qed

lemma length_swap_before: "length (swap_before q p s) = length s"
  by (induction q p s rule: swap_before.induct) auto

lemma swap_before_at:
  "p \<noteq> q \<Longrightarrow> Suc i < length s \<Longrightarrow> s ! i = p \<Longrightarrow> s ! Suc i = q \<Longrightarrow>
     swap_before q p s ! i = q \<and> swap_before q p s ! Suc i = p"
proof (induction q p s arbitrary: i rule: swap_before.induct)
  case (1 q p a b s)
  show ?case
  proof (cases "a = p \<and> b = q")
    case True
    show ?thesis
    proof (cases i)
      case 0
      with True show ?thesis by simp
    next
      case (Suc j)
      show ?thesis
      proof (cases j)
        case 0
        with Suc 1(4,5) True 1(3) have False by simp
        then show ?thesis ..
      next
        case (Suc k)
        with \<open>i = Suc j\<close> 1(4,5,6) have "Suc k < length s" "s ! k = p" "s ! Suc k = q" by auto
        with 1(1)[OF True 1(3)] have "swap_before q p s ! k = q \<and> swap_before q p s ! Suc k = p"
          by blast
        with True Suc \<open>i = Suc j\<close> show ?thesis by simp
      qed
    qed
  next
    case False
    show ?thesis
    proof (cases i)
      case 0
      with 1(5,6) False show ?thesis by simp
    next
      case (Suc j)
      with 1(4,5,6) have "Suc j < length (b # s)" "(b # s) ! j = p" "(b # s) ! Suc j = q" by auto
      with 1(2)[OF False 1(3)] have
        "swap_before q p (b # s) ! j = q \<and> swap_before q p (b # s) ! Suc j = p" by blast
      moreover have "swap_before q p (a # b # s) = a # swap_before q p (b # s)"
        using False by auto
      ultimately show ?thesis unfolding Suc by simp
    qed
  qed
qed auto

section \<open>The word list\<close>

lemma length_blocks:
  "length WORD_LIST_0 = 100" "length WORD_LIST_1 = 100" "length WORD_LIST_2 = 100"
  "length WORD_LIST_3 = 100" "length WORD_LIST_4 = 100" "length WORD_LIST_5 = 100"
  "length WORD_LIST_6 = 100" "length WORD_LIST_7 = 100" "length WORD_LIST_8 = 100"
  "length WORD_LIST_9 = 100" "length WORD_LIST_10 = 100" "length WORD_LIST_11 = 100"
  "length WORD_LIST_12 = 100" "length WORD_LIST_13 = 100" "length WORD_LIST_14 = 100"
  "length WORD_LIST_15 = 25"
  by (simp_all add: WORD_LIST_0_def WORD_LIST_1_def WORD_LIST_2_def WORD_LIST_3_def
      WORD_LIST_4_def WORD_LIST_5_def WORD_LIST_6_def WORD_LIST_7_def WORD_LIST_8_def
      WORD_LIST_9_def WORD_LIST_10_def WORD_LIST_11_def WORD_LIST_12_def WORD_LIST_13_def
      WORD_LIST_14_def WORD_LIST_15_def)

lemma length_WORD_LIST: "length WORD_LIST = 1525"
  by (simp add: WORD_LIST_def length_blocks)

lemma asia_twice: "WORD_LIST ! 39 = str ''asia''" "WORD_LIST ! 58 = str ''asia''"
  by (simp_all add: WORD_LIST_def nth_append length_blocks WORD_LIST_0_def)

lemma sample_error:
  "k < 0 \<or> int (length population) < k \<Longrightarrow> sample population k picks = Inl ValueError"
  by (auto simp: sample_def)

lemma sample_result:
  assumes "0 \<le> k" "k \<le> int (length population)" "picks_ok (length population) k picks"
  shows "\<exists>ws. sample population k picks = Inr ws \<and> int (length ws) = k \<and>
      set ws \<subseteq> set population \<and> ws = map (\<lambda>i. population ! i) picks"
  using assms by (auto simp: sample_def picks_ok_def list_all_iff)

section \<open>The characters of a text through the passes\<close>

lemma PRD_eq: "PRD = [60, 112, 114, 100, 62]"
  by (simp add: PRD_def str_def)

lemma STOP_eq: "STOP = [60, 115, 116, 111, 112, 62]"
  by (simp add: STOP_def str_def)

declare unmark.simps(2) [simp del] wm.simps(2) [simp del]

lemma unmark_PRD [simp]: "unmark (PRD @ r) = 46 # unmark r"
  by (simp add: PRD_eq unmark.simps(2))

lemma unmark_STOP [simp]: "unmark (STOP @ r) = unmark r"
  by (simp add: PRD_eq STOP_eq unmark.simps(2))

lemma unmark_other [simp]: "c \<noteq> 60 \<Longrightarrow> unmark (c # cs) = c # unmark cs"
  by (simp add: PRD_eq STOP_eq unmark.simps(2))

lemma unmark_stray:
  "\<not> startswith PRD (c # cs) \<Longrightarrow> \<not> startswith STOP (c # cs) \<Longrightarrow> unmark (c # cs) = c # unmark cs"
  by (simp add: unmark.simps(2))

lemma wm_PRD [simp]: "wm (PRD @ r) = wm r"
  by (simp add: PRD_eq wm.simps(2))

lemma wm_STOP [simp]: "wm (STOP @ r) = wm r"
  by (simp add: PRD_eq STOP_eq wm.simps(2))

lemma wm_other [simp]: "c \<noteq> 60 \<Longrightarrow> wm (c # cs) = (c \<noteq> 62 \<and> wm cs)"
  by (simp add: PRD_eq STOP_eq wm.simps(2))

text \<open>The shape of a text, and of a well-marked one.\<close>

lemma text_cases:
  obtains "t = []" | r where "t = PRD @ r" | r where "t = STOP @ r"
    | c cs where "t = c # cs" "\<not> startswith PRD t" "\<not> startswith STOP t"
proof (cases t)
  case Nil
  then show ?thesis using that(1) by simp
next
  case (Cons c cs)
  show ?thesis
  proof (cases "startswith PRD t")
    case True
    then have "t = PRD @ drop (length PRD) t" by (simp add: startswith_drop)
    then show ?thesis using that(2) by blast
  next
    case np: False
    show ?thesis
    proof (cases "startswith STOP t")
      case True
      then have "t = STOP @ drop (length STOP) t" by (simp add: startswith_drop)
      then show ?thesis using that(3) by blast
    next
      case False
      with np Cons show ?thesis using that(4) by blast
    qed
  qed
qed

lemma wm_cases:
  assumes "wm t"
  obtains "t = []" | r where "t = PRD @ r" "wm r" | r where "t = STOP @ r" "wm r"
    | c cs where "t = c # cs" "c \<noteq> 60" "c \<noteq> 62" "wm cs"
proof (cases t rule: text_cases)
  case 1
  then show ?thesis using that(1) by simp
next
  case (2 r)
  with assms show ?thesis using that(2) by simp
next
  case (3 r)
  with assms show ?thesis using that(3) by simp
next
  case (4 c cs)
  with assms have "c \<noteq> 60 \<and> c \<noteq> 62 \<and> wm cs" by (simp add: wm.simps(2))
  with 4(1) show ?thesis using that(4) by blast
qed

lemma wm_plain: "60 \<notin> set s \<Longrightarrow> 62 \<notin> set s \<Longrightarrow> wm s"
  by (induction s) auto

lemma unmark_plain: "60 \<notin> set s \<Longrightarrow> unmark s = s"
  by (induction s) auto

lemma unmark_plain_append: "60 \<notin> set s \<Longrightarrow> unmark (s @ x) = s @ unmark x"
  by (induction s) auto

lemma unmark_no_markers: "\<not> contains PRD s \<Longrightarrow> \<not> contains STOP s \<Longrightarrow> unmark s = s"
  by (induction s) (simp_all add: unmark_stray)

text \<open>A well-marked piece is read on its own, whatever follows it.\<close>

lemma wm_append: "wm l \<Longrightarrow> wm (l @ x) = wm x \<and> unmark (l @ x) = unmark l @ unmark x"
proof (induction l rule: length_induct)
  case (1 l)
  from 1(2) show ?case
  proof (cases rule: wm_cases)
    case 1
    then show ?thesis by simp
  next
    case (2 r)
    have "length r < length l" using 2(1) by (simp add: PRD_eq)
    with 1(1) 2(2) have "wm (r @ x) = wm x \<and> unmark (r @ x) = unmark r @ unmark x" by blast
    then show ?thesis using 2(1) by simp
  next
    case (3 r)
    have "length r < length l" using 3(1) by (simp add: STOP_eq)
    with 1(1) 3(2) have "wm (r @ x) = wm x \<and> unmark (r @ x) = unmark r @ unmark x" by blast
    then show ?thesis using 3(1) by simp
  next
    case (4 c cs)
    have "length cs < length l" using 4(1) by simp
    with 1(1) 4(4) have "wm (cs @ x) = wm x \<and> unmark (cs @ x) = unmark cs @ unmark x" by blast
    then show ?thesis using 4(1,2,3) by simp
  qed
qed

lemma wm_appendI: "wm a \<Longrightarrow> wm b \<Longrightarrow> wm (a @ b)"
  using wm_append by blast

lemma unmark_append: "wm a \<Longrightarrow> unmark (a @ b) = unmark a @ unmark b"
  using wm_append by blast

text \<open>In a well-marked piece every \<open>>\<close> closes a marker.\<close>

lemma wm_prefix_no_gt:
  "wm l \<Longrightarrow> startswith w l \<Longrightarrow> 60 \<notin> set w \<Longrightarrow> 62 \<notin> set w"
proof (induction l arbitrary: w rule: length_induct)
  case (1 l)
  note IH = 1(1) and st = 1(3) and lt = 1(4)
  from 1(2) show ?case
  proof (cases rule: wm_cases)
    case 1
    with st show ?thesis by (cases w) auto
  next
    case (2 r)
    with st lt show ?thesis by (cases w) (auto simp: PRD_eq)
  next
    case (3 r)
    with st lt show ?thesis by (cases w) (auto simp: STOP_eq)
  next
    case (4 c cs)
    show ?thesis
    proof (cases w)
      case Nil
      then show ?thesis by simp
    next
      case (Cons a w')
      with st 4(1) have a: "a = c" and s: "startswith w' cs" by auto
      have "length cs < length l" using 4(1) by simp
      with IH 4(4) s lt Cons have "62 \<notin> set w'" by auto
      with a 4(3) Cons show ?thesis by simp
    qed
  qed
qed

lemma matches_avoids:
  "avoids c rx \<Longrightarrow> (g, r) \<in> set (matches rx s) \<Longrightarrow> c \<notin> set (take (length s - length r) s)"
proof (induction rx arbitrary: s g r)
  case (Cat a b)
  from Cat.prems(2) obtain g1 r1 g2 where 1: "(g1, r1) \<in> set (matches a s)"
    and 2: "(g2, r) \<in> set (matches b r1)" by auto
  from matches_suffix[OF 1] obtain m1 where m1: "s = m1 @ r1" ..
  from matches_suffix[OF 2] obtain m2 where m2: "r1 = m2 @ r" ..
  have tk: "take (length s - length r) s = m1 @ m2" using m1 m2 by simp
  have tk1: "take (length s - length r1) s = m1" using m1 by simp
  have tk2: "take (length r1 - length r) r1 = m2" using m2 by simp
  from Cat.prems(1) have "avoids c a" "avoids c b" by simp_all
  with Cat.IH(1)[OF _ 1] Cat.IH(2)[OF _ 2] show ?case using tk tk1 tk2 by simp
next
  case (AtLeast n d)
  then obtain j where j: "r = drop j s" "j \<le> length (takeWhile (\<lambda>x. x = d) s)"
    by (auto simp: Let_def)
  have jl: "j \<le> length s" using j(2) length_takeWhile_le[of "\<lambda>x. x = d" s] by linarith
  have "take (length s - length r) s = take j s" using j(1) jl by simp
  also have "\<dots> = take j (takeWhile (\<lambda>x. x = d) s)"
    using j(2) by (metis takeWhile_dropWhile_id take_append diff_is_0_eq take_0 append_Nil2)
  finally have "set (take (length s - length r) s) \<subseteq> set (takeWhile (\<lambda>x. x = d) s)"
    by (simp add: set_take_subset)
  moreover have "\<forall>x\<in>set (takeWhile (\<lambda>x. x = d) s). x = d" by (metis set_takeWhileD)
  ultimately show ?case using AtLeast.prems(1) by auto
qed (auto split: list.splits if_splits)

lemma no_match_before_gt:
  assumes "must d rx" and "avoids 62 rx" and "62 \<in> set x" and "d \<notin> set x"
  shows "matches rx (x @ r) = []"
proof (rule ccontr)
  assume "matches rx (x @ r) \<noteq> []"
  then obtain g r' where in_m: "(g, r') \<in> set (matches rx (x @ r))"
    by (cases "matches rx (x @ r)") auto
  define n where "n = length (x @ r) - length r'"
  have d: "d \<in> set (take n (x @ r))" unfolding n_def using assms(1) in_m by (rule matches_must)
  have gt: "62 \<notin> set (take n (x @ r))" unfolding n_def using assms(2) in_m by (rule matches_avoids)
  show False
  proof (cases "n \<le> length x")
    case True
    then have "take n (x @ r) = take n x" by simp
    with d have "d \<in> set x" by (auto dest: in_set_takeD)
    with assms(4) show False ..
  next
    case False
    then have "take n (x @ r) = x @ take (n - length x) r" by simp
    with gt assms(3) show False by simp
  qed
qed

lemma scan_skip:
  assumes "must d rx" and "avoids 62 rx" and "d \<notin> marker_chars"
  shows "sub_scan rx f (PRD @ r) = PRD @ sub_scan rx f r"
    and "sub_scan rx f (STOP @ r) = STOP @ sub_scan rx f r"
proof -
  have n: "62 \<in> set x \<Longrightarrow> set x \<subseteq> marker_chars \<Longrightarrow> matches rx (x @ r) = []" for x
    using assms no_match_before_gt[of d rx x r] by blast
  have p: "matches rx (60 # 112 # 114 # 100 # 62 # r) = []"
    "matches rx (112 # 114 # 100 # 62 # r) = []" "matches rx (114 # 100 # 62 # r) = []"
    "matches rx (100 # 62 # r) = []" "matches rx (62 # r) = []"
    using n[of "[60, 112, 114, 100, 62]"] n[of "[112, 114, 100, 62]"] n[of "[114, 100, 62]"]
      n[of "[100, 62]"] n[of "[62]"] by (simp_all add: marker_chars_def)
  have s: "matches rx (60 # 115 # 116 # 111 # 112 # 62 # r) = []"
    "matches rx (115 # 116 # 111 # 112 # 62 # r) = []" "matches rx (116 # 111 # 112 # 62 # r) = []"
    "matches rx (111 # 112 # 62 # r) = []" "matches rx (112 # 62 # r) = []"
    using n[of "[60, 115, 116, 111, 112, 62]"] n[of "[115, 116, 111, 112, 62]"]
      n[of "[116, 111, 112, 62]"] n[of "[111, 112, 62]"] n[of "[112, 62]"]
    by (simp_all add: marker_chars_def)
  show "sub_scan rx f (PRD @ r) = PRD @ sub_scan rx f r"
    by (simp add: PRD_eq p del: matches.simps)
  show "sub_scan rx f (STOP @ r) = STOP @ sub_scan rx f r"
    by (simp add: STOP_eq s p(5) del: matches.simps)
qed

lemma startswith_append_cases:
  "startswith w (a @ b) \<Longrightarrow> startswith w a \<or> (\<exists>w2. w = a @ w2)"
  by (auto simp: startswith_iff append_eq_append_conv2)

text \<open>
  A scan writes no marker tail behind a \<open><\<close> of the text: what it writes in place of a
  match is well-marked and holds a character that no marker tail has.
\<close>

lemma scan_tail:
  assumes d: "must d rx"
    and f: "\<And>s g rest ms. matches rx s = (g, rest) # ms \<Longrightarrow>
        wm (f (Some (take (length s - length rest) s) # g)) \<and>
        (\<exists>z \<in> set (f (Some (take (length s - length rest) s) # g)). z \<notin> tail_chars)"
  shows "set w \<subseteq> tail_chars \<Longrightarrow> (w \<noteq> [] \<Longrightarrow> last w = 62) \<Longrightarrow>
    startswith w (sub_scan rx f cs) \<Longrightarrow> startswith w cs"
proof (induction w arbitrary: cs)
  case Nil
  show ?case by simp
next
  case (Cons a w)
  have no60: "60 \<notin> set (a # w)" using Cons.prems(1) by (auto simp: tail_chars_def)
  have gt: "62 \<in> set (a # w)" using Cons.prems(2) by (metis last_in_set list.distinct(1))
  show ?case
  proof (cases cs)
    case Nil
    have "matches rx [] = []" using d by (rule matches_none) simp
    with Nil Cons.prems(3) show ?thesis by simp
  next
    case (Cons c cs')
    note cs = this
    show ?thesis
    proof (cases "matches rx (c # cs')")
      case Nil
      with Cons.prems(3) cs have a: "a = c" and s: "startswith w (sub_scan rx f cs')"
        by (simp_all del: matches.simps)
      have "set w \<subseteq> tail_chars" using Cons.prems(1) by simp
      moreover have "w \<noteq> [] \<Longrightarrow> last w = 62" using Cons.prems(2) by simp
      ultimately have "startswith w cs'" using s by (rule Cons.IH)
      with a cs show ?thesis by simp
    next
      case (Cons p ms)
      obtain g rest where p: "p = (g, rest)" by (cases p)
      have ms: "matches rx (c # cs') = (g, rest) # ms" using Cons p by simp
      then have in_m: "(g, rest) \<in> set (matches rx (c # cs'))" by simp
      define m where "m = take (length (c # cs') - length rest) (c # cs')"
      from matches_suffix[OF in_m] obtain m0 where m0: "c # cs' = m0 @ rest" ..
      then have "m = m0" unfolding m_def by simp
      with m0 have tm: "c # cs' = m @ rest" by simp
      have "d \<in> set m" unfolding m_def using d in_m by (rule matches_must)
      then have "m \<noteq> []" by auto
      then have lt: "length rest < length (c # cs')"
        using tm by (metis length_append length_greater_0_conv less_add_same_cancel2)
      define out where "out = f (Some m # g)"
      have o: "wm out" "\<exists>z \<in> set out. z \<notin> tail_chars"
        unfolding out_def m_def using f[OF ms] by simp_all
      have "sub_scan rx f (c # cs') = out @ sub_scan rx f rest"
        using ms lt unfolding out_def m_def by (simp del: matches.simps)
      with Cons.prems(3) cs have "startswith (a # w) (out @ sub_scan rx f rest)" by simp
      then have "startswith (a # w) out \<or> (\<exists>w2. a # w = out @ w2)"
        by (rule startswith_append_cases)
      then have False
      proof
        assume "startswith (a # w) out"
        with o(1) have "62 \<notin> set (a # w)" using no60 by (rule wm_prefix_no_gt)
        with gt show False by simp
      next
        assume "\<exists>w2. a # w = out @ w2"
        then have "set out \<subseteq> set (a # w)" by (metis set_append Un_upper1)
        with Cons.prems(1) o(2) show False by blast
      qed
      then show ?thesis ..
    qed
  qed
qed

lemma scan_stray:
  assumes d: "must d rx"
    and f: "\<And>s g rest ms. matches rx s = (g, rest) # ms \<Longrightarrow>
        wm (f (Some (take (length s - length rest) s) # g)) \<and>
        (\<exists>z \<in> set (f (Some (take (length s - length rest) s) # g)). z \<notin> tail_chars)"
    and "\<not> startswith PRD (60 # cs)" and "\<not> startswith STOP (60 # cs)"
  shows "\<not> startswith PRD (60 # sub_scan rx f cs) \<and> \<not> startswith STOP (60 # sub_scan rx f cs)"
proof -
  have 1: "startswith [112, 114, 100, 62] (sub_scan rx f cs) \<Longrightarrow> startswith [112, 114, 100, 62] cs"
    using d f by (rule scan_tail) (simp_all add: tail_chars_def)
  have 2: "startswith [115, 116, 111, 112, 62] (sub_scan rx f cs)
      \<Longrightarrow> startswith [115, 116, 111, 112, 62] cs"
    using d f by (rule scan_tail) (simp_all add: tail_chars_def)
  show ?thesis using assms(3,4) 1 2 by (auto simp: PRD_eq STOP_eq)
qed

lemma scan_keeps:
  assumes d: "must d rx" "d \<notin> marker_chars" and a60: "avoids 60 rx" and a62: "avoids 62 rx"
    and f: "\<And>s g rest ms. matches rx s = (g, rest) # ms \<Longrightarrow>
        wm (f (Some (take (length s - length rest) s) # g)) \<and>
        (\<exists>z \<in> set (f (Some (take (length s - length rest) s) # g)). z \<notin> tail_chars) \<and>
        filter P (unmark (f (Some (take (length s - length rest) s) # g)))
          = filter P (take (length s - length rest) s)"
  shows "filter P (unmark (sub_scan rx f t)) = filter P (unmark t)"
proof (induction t rule: length_induct)
  case (1 t)
  note IH = 1(1)
  have f2: "\<And>s g rest ms. matches rx s = (g, rest) # ms \<Longrightarrow>
        wm (f (Some (take (length s - length rest) s) # g)) \<and>
        (\<exists>z \<in> set (f (Some (take (length s - length rest) s) # g)). z \<notin> tail_chars)"
    using f by blast
  show ?case
  proof (cases t rule: text_cases)
    case 1
    have "matches rx [] = []" using d(1) by (rule matches_none) simp
    with 1 show ?thesis by simp
  next
    case (2 r)
    have "length r < length t" using 2 by (simp add: PRD_eq)
    with IH have "filter P (unmark (sub_scan rx f r)) = filter P (unmark r)" by blast
    then show ?thesis unfolding 2 scan_skip(1)[OF d(1) a62 d(2)] by simp
  next
    case (3 r)
    have "length r < length t" using 3 by (simp add: STOP_eq)
    with IH have "filter P (unmark (sub_scan rx f r)) = filter P (unmark r)" by blast
    then show ?thesis unfolding 3 scan_skip(2)[OF d(1) a62 d(2)] by simp
  next
    case (4 c cs)
    have ut: "unmark (c # cs) = c # unmark cs" using 4 by (simp add: unmark_stray)
    show ?thesis
    proof (cases "matches rx (c # cs)")
      case Nil
      have "length cs < length t" using 4(1) by simp
      with IH have ih: "filter P (unmark (sub_scan rx f cs)) = filter P (unmark cs)" by blast
      have sc: "sub_scan rx f (c # cs) = c # sub_scan rx f cs"
        using Nil by (simp del: matches.simps)
      have "unmark (c # sub_scan rx f cs) = c # unmark (sub_scan rx f cs)"
      proof (cases "c = 60")
        case True
        have "\<not> startswith PRD (60 # sub_scan rx f cs) \<and> \<not> startswith STOP (60 # sub_scan rx f cs)"
          using d(1) f2 4(2,3) unfolding 4(1) True by (rule scan_stray)
        then show ?thesis unfolding True by (simp add: unmark_stray)
      next
        case False
        then show ?thesis by simp
      qed
      then show ?thesis unfolding 4(1) sc ut using ih by simp
    next
      case (Cons a ms)
      obtain g rest where a: "a = (g, rest)" by (cases a)
      have ms: "matches rx (c # cs) = (g, rest) # ms" using Cons a by simp
      then have in_m: "(g, rest) \<in> set (matches rx (c # cs))" by simp
      define m where "m = take (length (c # cs) - length rest) (c # cs)"
      from matches_suffix[OF in_m] obtain m0 where m0: "c # cs = m0 @ rest" ..
      then have mm: "m = m0" unfolding m_def by simp
      have tm: "c # cs = m @ rest" using m0 mm by simp
      have "d \<in> set m" unfolding m_def using d(1) in_m by (rule matches_must)
      then have "m \<noteq> []" by auto
      then have lt: "length rest < length (c # cs)"
        using tm by (metis length_append length_greater_0_conv less_add_same_cancel2)
      have no60: "60 \<notin> set m" unfolding m_def using a60 in_m by (rule matches_avoids)
      have "length rest < length t" using lt 4(1) by simp
      with IH have ih: "filter P (unmark (sub_scan rx f rest)) = filter P (unmark rest)" by blast
      have out: "wm (f (Some m # g))" "filter P (unmark (f (Some m # g))) = filter P m"
        unfolding m_def using f[OF ms] by simp_all
      have sc: "sub_scan rx f (c # cs) = f (Some m # g) @ sub_scan rx f rest"
        using ms lt unfolding m_def by (simp del: matches.simps)
      have "unmark (c # cs) = m @ unmark rest"
        using tm no60 unmark_plain_append[of m rest] by simp
      then show ?thesis unfolding 4(1) sc using out ih by (simp add: unmark_append)
    qed
  qed
qed

lemma norm_append: "norm P (a @ b) = norm P a @ norm P b"
  by (induction P a rule: norm.induct) auto

lemma interp_append: "interp P (a @ b) M = interp P a M @ interp P b M"
  by (induction P a M rule: interp.induct) auto

lemma interp_chars: "interp P (map SC xs) M = xs"
  by (induction xs) auto

lemma matches_groups_avoid:
  "avoids c rx \<Longrightarrow> (g, r) \<in> set (matches rx s) \<Longrightarrow> Some x \<in> set g \<Longrightarrow> c \<notin> set x"
proof (induction rx arbitrary: s g r)
  case (Cat a b)
  from Cat.prems(2) obtain g1 r1 g2 where 1: "(g1, r1) \<in> set (matches a s)"
    and 2: "(g2, r) \<in> set (matches b r1)" and g: "g = g1 @ g2" by auto
  from Cat.prems(1) have "avoids c a" "avoids c b" by simp_all
  with Cat.IH(1)[OF _ 1] Cat.IH(2)[OF _ 2] Cat.prems(3) g show ?case by auto
next
  case (Grp a)
  from Grp.prems(2) obtain g' where 1: "(g', r) \<in> set (matches a s)"
    and g: "g = Some (take (length s - length r) s) # g'" by auto
  from Grp.prems(1) have av: "avoids c a" by simp
  from Grp.prems(3) g have "x = take (length s - length r) s \<or> Some x \<in> set g'" by auto
  then show ?case
  proof
    assume "x = take (length s - length r) s"
    then show ?thesis using matches_avoids[OF av 1] by simp
  next
    assume "Some x \<in> set g'"
    then show ?thesis using Grp.IH[OF av 1] by simp
  qed
next
  case (Alt a b)
  from Alt.prems(2) consider g' where "(g', r) \<in> set (matches a s)" "g = g' @ replicate (ngroups b) None"
    | g' where "(g', r) \<in> set (matches b s)" "g = replicate (ngroups a) None @ g'" by auto
  then show ?case
  proof cases
    case 1
    with Alt.prems(3) have "Some x \<in> set g'" by auto
    with Alt.IH(1) 1(1) Alt.prems(1) show ?thesis by auto
  next
    case 2
    with Alt.prems(3) have "Some x \<in> set g'" by auto
    with Alt.IH(2) 2(1) Alt.prems(1) show ?thesis by auto
  qed
next
  case (Opt a)
  from Opt.prems(2) consider "(g, r) \<in> set (matches a s)" | "g = replicate (ngroups a) None" by auto
  then show ?case
  proof cases
    case 1
    with Opt.IH Opt.prems(1,3) show ?thesis by auto
  next
    case 2
    with Opt.prems(3) show ?thesis by auto
  qed
qed (auto split: list.splits if_splits simp: Let_def)

lemma group_avoid:
  assumes "\<And>x. Some x \<in> set M \<Longrightarrow> c \<notin> set x"
  shows "c \<notin> set (group M n)"
proof (cases "n < length M")
  case True
  show ?thesis
  proof (cases "M ! n")
    case None
    with True show ?thesis by (simp add: group_def)
  next
    case (Some x)
    have "M ! n \<in> set M" using True by simp
    with Some assms have "c \<notin> set x" by simp
    with True Some show ?thesis by (simp add: group_def)
  qed
next
  case False
  then show ?thesis by (simp add: group_def)
qed

lemma lits_expand: "lits t \<subseteq> set (expand t M)"
  by (induction t M rule: expand.induct) auto

lemma expand_keeps:
  assumes "lits_wm t" and g: "\<And>n. 60 \<notin> set (group M n)" "\<And>n. 62 \<notin> set (group M n)"
  shows "wm (expand t M) \<and> filter P (unmark (expand t M)) = interp P (norm P t) M"
  using assms(1)
proof (induction t)
  case Nil
  show ?case by simp
next
  case (Cons a t)
  show ?case
  proof (cases a)
    case (Lit l)
    with Cons have "wm l"
      and "wm (expand t M) \<and> filter P (unmark (expand t M)) = interp P (norm P t) M"
      by simp_all
    then show ?thesis unfolding Lit by (simp add: wm_append interp_append interp_chars)
  next
    case (Ref n)
    with Cons have "wm (expand t M) \<and> filter P (unmark (expand t M)) = interp P (norm P t) M"
      by simp
    moreover have "wm (group M n)" using g[of n] by (simp add: wm_plain)
    ultimately show ?thesis unfolding Ref using g(1)[of n]
      by (simp add: wm_append unmark_plain)
  qed
qed

lemma canon_keeps:
  assumes P: "\<And>c. P c \<Longrightarrow> \<not> isspace c"
  shows "plain rx \<Longrightarrow> avoids 60 rx \<Longrightarrow> (g, r) \<in> set (matches rx s) \<Longrightarrow>
    (\<And>i. i < ngroups rx \<Longrightarrow> k + i < length M \<and> M ! (k + i) = g ! i) \<Longrightarrow>
    interp P (norm P (canon k rx)) M = filter P (take (length s - length r) s)"
proof (induction rx arbitrary: s g r k)
  case Eps
  then show ?case by simp
next
  case (Chr c)
  then show ?case by (auto split: list.splits if_splits simp: interp_chars)
next
  case (Cls rs)
  from Cls.prems(1) obtain c where rs: "rs = [(c, c)]"
    by (cases rs) auto
  with Cls.prems(2) have "c \<noteq> 60" by auto
  with Cls.prems(3) rs show ?case by (auto split: list.splits if_splits simp: interp_chars)
next
  case Space
  have "\<not> P 32" using P[of 32] by (auto simp: isspace_def)
  with Space.prems(3) show ?case using P by (auto split: list.splits if_splits)
next
  case (Cat a b)
  from Cat.prems(3) obtain g1 r1 g2 where 1: "(g1, r1) \<in> set (matches a s)"
    and 2: "(g2, r) \<in> set (matches b r1)" and g: "g = g1 @ g2" by auto
  from matches_suffix[OF 1] obtain m1 where m1: "s = m1 @ r1" ..
  from matches_suffix[OF 2] obtain m2 where m2: "r1 = m2 @ r" ..
  have tk: "take (length s - length r) s = m1 @ m2" using m1 m2 by simp
  have tk1: "take (length s - length r1) s = m1" using m1 by simp
  have tk2: "take (length r1 - length r) r1 = m2" using m2 by simp
  have l1: "length g1 = ngroups a" using 1 by (rule matches_ngroups)
  have ia: "interp P (norm P (canon k a)) M = filter P m1"
  proof -
    have "i < ngroups a \<Longrightarrow> k + i < length M \<and> M ! (k + i) = g1 ! i" for i
      using Cat.prems(4)[of i] g l1 by (simp add: nth_append)
    with Cat.IH(1)[OF _ _ 1, of k] Cat.prems(1,2) tk1 show ?thesis by simp
  qed
  have ib: "interp P (norm P (canon (k + ngroups a) b)) M = filter P m2"
  proof -
    have "i < ngroups b \<Longrightarrow> k + ngroups a + i < length M \<and> M ! (k + ngroups a + i) = g2 ! i" for i
      using Cat.prems(4)[of "ngroups a + i"] g l1 by (simp add: nth_append add.assoc)
    with Cat.IH(2)[OF _ _ 2, of "k + ngroups a"] Cat.prems(1,2) tk2 show ?thesis by simp
  qed
  show ?case by (simp add: norm_append interp_append ia ib tk)
next
  case (Grp a)
  from Grp.prems(3) obtain g' where g: "g = Some (take (length s - length r) s) # g'" by auto
  from Grp.prems(4)[of 0] g have "k < length M" "M ! k = Some (take (length s - length r) s)"
    by simp_all
  then show ?case by (simp add: group_def)
qed simp_all

lemma aligned_keeps:
  assumes P: "\<And>c. P c \<Longrightarrow> \<not> isspace c"
    and al: "aligned P rx t" and a60: "avoids 60 rx" and a62: "avoids 62 rx"
    and ms: "matches rx s = (g, rest) # ms"
  shows "wm (expand t (Some (take (length s - length rest) s) # g)) \<and>
    (\<exists>z \<in> set (expand t (Some (take (length s - length rest) s) # g)). z \<notin> tail_chars) \<and>
    filter P (unmark (expand t (Some (take (length s - length rest) s) # g)))
      = filter P (take (length s - length rest) s)"
proof -
  let ?m = "take (length s - length rest) s"
  let ?M = "Some ?m # g"
  have in_m: "(g, rest) \<in> set (matches rx s)" using ms by simp
  have lg: "length g = ngroups rx" using in_m by (rule matches_ngroups)
  have "60 \<notin> set x" if "Some x \<in> set ?M" for x
  proof -
    from that have "x = ?m \<or> Some x \<in> set g" by auto
    then show ?thesis
      using matches_avoids[OF a60 in_m] matches_groups_avoid[OF a60 in_m] by auto
  qed
  then have g60: "60 \<notin> set (group ?M n)" for n by (rule group_avoid)
  have "62 \<notin> set x" if "Some x \<in> set ?M" for x
  proof -
    from that have "x = ?m \<or> Some x \<in> set g" by auto
    then show ?thesis
      using matches_avoids[OF a62 in_m] matches_groups_avoid[OF a62 in_m] by auto
  qed
  then have g62: "62 \<notin> set (group ?M n)" for n by (rule group_avoid)
  have ix: "i < ngroups rx \<Longrightarrow> 1 + i < length ?M \<and> ?M ! (1 + i) = g ! i" for i
    using lg by simp
  have "interp P (norm P (canon 1 rx)) ?M = filter P ?m"
    using P al a60 in_m ix by (intro canon_keeps) (auto simp: aligned_def)
  moreover have "wm (expand t ?M) \<and> filter P (unmark (expand t ?M)) = interp P (norm P t) ?M"
    using al g60 g62 by (intro expand_keeps) (auto simp: aligned_def)
  moreover have "\<exists>z \<in> set (expand t ?M). z \<notin> tail_chars"
    using al lits_expand[of t ?M] unfolding aligned_def by blast
  ultimately show ?thesis using al by (simp add: aligned_def)
qed

lemma re_scan_keeps:
  assumes P: "\<And>c. P c \<Longrightarrow> \<not> isspace c"
    and "aligned P rx t" and "avoids 60 rx" and "avoids 62 rx" and "must 46 rx"
  shows "keeps P (sub_scan rx (expand t))"
  unfolding keeps_def
proof
  fix s
  show "filter P (unmark (sub_scan rx (expand t) s)) = filter P (unmark s)"
  proof (rule scan_keeps[where d = 46])
    show "must 46 rx" by fact
    show "46 \<notin> marker_chars" by (simp add: marker_chars_def)
    show "avoids 60 rx" by fact
    show "avoids 62 rx" by fact
    fix s' g rest ms
    assume "matches rx s' = (g, rest) # ms"
    with P assms(2,3,4) show "wm (expand t (Some (take (length s' - length rest) s') # g)) \<and>
        (\<exists>z \<in> set (expand t (Some (take (length s' - length rest) s') # g)). z \<notin> tail_chars) \<and>
        filter P (unmark (expand t (Some (take (length s' - length rest) s') # g)))
          = filter P (take (length s' - length rest) s')"
      by (rule aligned_keeps)
  qed
qed

lemma keeps_comp: "keeps P F \<Longrightarrow> keeps P G \<Longrightarrow> keeps P (\<lambda>s. G (F s))"
  by (simp add: keeps_def)

lemma keepsD: "keeps P F \<Longrightarrow> filter P (unmark (F s)) = filter P (unmark s)"
  by (simp add: keeps_def)

lemma run_passes_Cons: "run_passes ((rx, t) # ps) s = run_passes ps (sub_scan rx (expand t) s)"
  by (simp add: run_passes_def)

lemma run_passes_append: "run_passes (a @ b) s = run_passes b (run_passes a s)"
  by (simp add: run_passes_def)

lemma run_passes_keeps:
  assumes P: "\<And>c. P c \<Longrightarrow> \<not> isspace c"
  shows "\<forall>(rx, t) \<in> set ps. aligned P rx t \<and> avoids 60 rx \<and> avoids 62 rx \<and> must 46 rx
    \<Longrightarrow> keeps P (run_passes ps)"
proof (induction ps)
  case Nil
  show ?case by (simp add: run_passes_def keeps_def)
next
  case (Cons p ps)
  obtain rx t where p: "p = (rx, t)" by (cases p)
  with Cons.prems have c: "aligned P rx t" "avoids 60 rx" "avoids 62 rx" "must 46 rx" by auto
  have 1: "keeps P (sub_scan rx (expand t))" using P c by (rule re_scan_keeps)
  have 2: "keeps P (run_passes ps)" using Cons by simp
  show ?case unfolding p using keeps_comp[OF 1 2] by (simp add: run_passes_Cons[abs_def])
qed

lemmas content_evals = aligned_def isspace_def str_def wm.simps(2) unmark.simps(2) PRD_eq STOP_eq
  tail_chars_def

lemma passes_a_letter:
  "\<forall>(rx, t) \<in> set passes_a. aligned letter rx t \<and> avoids 60 rx \<and> avoids 62 rx \<and> must 46 rx"
  by (simp add: passes_a_def pattern_defs letter_def content_evals)

lemma passes_a_nonspace:
  "\<forall>(rx, t) \<in> set passes_a. aligned nonspace rx t \<and> avoids 60 rx \<and> avoids 62 rx \<and> must 46 rx"
  by (simp add: passes_a_def pattern_defs nonspace_def content_evals)

lemma passes_b_letter:
  "\<forall>(rx, t) \<in> set passes_b. aligned letter rx t \<and> avoids 60 rx \<and> avoids 62 rx \<and> must 46 rx"
  by (simp add: passes_b_def pattern_defs letter_def content_evals)

lemma passes_b_nonspace:
  "\<forall>(rx, t) \<in> set (take 4 passes_b @ drop 5 passes_b).
     aligned nonspace rx t \<and> avoids 60 rx \<and> avoids 62 rx \<and> must 46 rx"
  by (simp add: passes_b_def pattern_defs nonspace_def content_evals)

lemma wm_prd_run: "wm (concat (replicate n (str ''<prd>'')) @ x) = wm x"
  by (induction n) (simp_all add: PRD_def[symmetric])

lemma unmark_prd_run:
  "unmark (concat (replicate n (str ''<prd>'')) @ x) = replicate n 46 @ unmark x"
  by (induction n) (simp_all add: PRD_def[symmetric])

lemma dots_consumed:
  assumes "(g, r) \<in> set (matches (AtLeast n d) s)"
  shows "take (length s - length r) s = replicate (length s - length r) d"
proof -
  from assms obtain j where j: "r = drop j s" "j \<le> length (takeWhile (\<lambda>x. x = d) s)"
    by (auto simp: Let_def)
  have jl: "j \<le> length s" using j(2) length_takeWhile_le[of "\<lambda>x. x = d" s] by linarith
  have e: "length s - length r = j" using j(1) jl by simp
  have "take j s = take j (takeWhile (\<lambda>x. x = d) s)"
    using j(2) by (metis takeWhile_dropWhile_id take_append diff_is_0_eq take_0 append_Nil2)
  moreover have "\<forall>x\<in>set (takeWhile (\<lambda>x. x = d) s). x = d" by (metis set_takeWhileD)
  ultimately have "\<forall>x\<in>set (take j s). x = d" by (metis in_set_takeD)
  moreover have "length (take j s) = j" using jl by simp
  ultimately have "take j s = replicate j d" by (metis replicate_eqI)
  then show ?thesis unfolding e .
qed

lemma ellipsis_keeps: "keeps P ellipsis"
  unfolding keeps_def ellipsis_def
proof
  fix s
  let ?f = "\<lambda>m. concat (replicate (length (group m 0)) (str ''<prd>'')) @ str ''<stop>''"
  show "filter P (unmark (sub_scan MULTIPLE_DOTS ?f s)) = filter P (unmark s)"
  proof (rule scan_keeps[where d = 46])
    show "must 46 MULTIPLE_DOTS" "avoids 60 MULTIPLE_DOTS" "avoids 62 MULTIPLE_DOTS"
      by (simp_all add: MULTIPLE_DOTS_def)
    show "46 \<notin> marker_chars" by (simp add: marker_chars_def)
    fix s' g rest ms
    assume "matches MULTIPLE_DOTS s' = (g, rest) # ms"
    then have "(g, rest) \<in> set (matches (AtLeast 2 46) s')" by (simp add: MULTIPLE_DOTS_def)
    then have "take (length s' - length rest) s' = replicate (length s' - length rest) 46"
      by (rule dots_consumed)
    define k where "k = length s' - length rest"
    have m: "take k s' = replicate k 46" unfolding k_def by fact
    have f: "length (group (Some (replicate k 46) # g) 0) = k"
      by (simp add: group_whole)
    have "wm (concat (replicate k (str ''<prd>'')) @ str ''<stop>'') \<and>
       (\<exists>z \<in> set (concat (replicate k (str ''<prd>'')) @ str ''<stop>''). z \<notin> tail_chars) \<and>
       filter P (unmark (concat (replicate k (str ''<prd>'')) @ str ''<stop>''))
         = filter P (replicate k 46)"
    proof -
      have "wm (str ''<stop>'')" "unmark (str ''<stop>'') = []"
        using wm_STOP[of "[]"] unmark_STOP[of "[]"] by (simp_all add: STOP_def)
      moreover have "60 \<in> set (str ''<stop>'')" "60 \<notin> tail_chars"
        by (simp_all add: str_def tail_chars_def)
      ultimately show ?thesis by (auto simp: wm_prd_run unmark_prd_run)
    qed
    then show "wm (?f (Some (take (length s' - length rest) s') # g)) \<and>
        (\<exists>z \<in> set (?f (Some (take (length s' - length rest) s') # g)). z \<notin> tail_chars) \<and>
        filter P (unmark (?f (Some (take (length s' - length rest) s') # g)))
          = filter P (take (length s' - length rest) s')"
      unfolding k_def[symmetric] m f .
  qed
qed

lemma matches_word:
  "old \<noteq> [] \<Longrightarrow>
     matches (word old) s = (if startswith old s then [([], drop (length old) s)] else [])"
proof (induction old arbitrary: s rule: word.induct)
  case 1
  then show ?case by simp
next
  case (2 c)
  show ?case by (cases s) auto
next
  case (3 c v va)
  show ?case using 3(1)[of "tl s"] by (cases s) auto
qed

lemma must_word: "d \<in> set old \<Longrightarrow> must d (word old)"
  by (induction old rule: word.induct) auto

lemma avoids_word: "c \<notin> set old \<Longrightarrow> avoids c (word old)"
  by (induction old rule: word.induct) auto

lemma replace_scan: "old \<noteq> [] \<Longrightarrow> replace old new s = sub_scan (word old) (\<lambda>m. new) s"
proof (induction old new s rule: replace.induct)
  case (1 old new)
  then show ?case by (cases old) (simp_all add: matches_word del: matches.simps)
next
  case (2 old new c cs)
  show ?case
  proof (cases "startswith old (c # cs)")
    case True
    have "length (drop (length old) (c # cs)) < length (c # cs)" using 2(4) by simp
    with True 2(2)[OF 2(4) True 2(4)] 2(4) show ?thesis
      by (simp add: matches_word del: matches.simps drop_Cons' length_drop)
  next
    case False
    with 2(3)[OF 2(4) False 2(4)] 2(4) show ?thesis
      by (simp add: matches_word del: matches.simps)
  qed
qed

lemma replace_keeps:
  assumes "d \<in> set old" "d \<notin> marker_chars" "60 \<notin> set old" "62 \<notin> set old"
    and "wm new" "\<exists>z \<in> set new. z \<notin> tail_chars" "filter P (unmark new) = filter P old"
  shows "keeps P (replace old new)"
  unfolding keeps_def
proof
  fix s
  have ne: "old \<noteq> []" using assms(1) by auto
  have "filter P (unmark (sub_scan (word old) (\<lambda>m. new) s)) = filter P (unmark s)"
  proof (rule scan_keeps[where d = d])
    show "must d (word old)" using assms(1) by (rule must_word)
    show "d \<notin> marker_chars" by fact
    show "avoids 60 (word old)" using assms(3) by (rule avoids_word)
    show "avoids 62 (word old)" using assms(4) by (rule avoids_word)
    fix s' g rest ms
    assume "matches (word old) s' = (g, rest) # ms"
    then have "startswith old s'" and "rest = drop (length old) s'"
      using ne by (auto simp: matches_word split: if_splits)
    then have "take (length s' - length rest) s' = old"
      by (auto simp: startswith_iff)
    with assms(5,6,7) show "wm new \<and> (\<exists>z \<in> set new. z \<notin> tail_chars) \<and>
        filter P (unmark new) = filter P (take (length s' - length rest) s')"
      by simp
  qed
  then show "filter P (unmark (replace old new s)) = filter P (unmark s)"
    by (simp add: replace_scan[OF ne])
qed

lemmas replace_evals = str_def marker_chars_def tail_chars_def wm.simps(2) unmark.simps(2)
  PRD_eq STOP_eq

lemma phd_keeps: "keeps P phd"
proof -
  have "keeps P (replace (str ''Ph.D.'') (str ''Ph<prd>D<prd>''))"
    by (rule replace_keeps[where d = 80]) (simp_all add: replace_evals)
  then show ?thesis by (simp add: keeps_def phd_def)
qed

lemma stops_keep:
  "keeps P (replace (str ''.'') (str ''.<stop>''))"
  "keeps P (replace (str ''?'') (str ''?<stop>''))"
  "keeps P (replace (str ''!'') (str ''!<stop>''))"
proof -
  show "keeps P (replace (str ''.'') (str ''.<stop>''))"
    by (rule replace_keeps[where d = 46]) (simp_all add: replace_evals)
  show "keeps P (replace (str ''?'') (str ''?<stop>''))"
    by (rule replace_keeps[where d = 63]) (simp_all add: replace_evals)
  show "keeps P (replace (str ''!'') (str ''!<stop>''))"
    by (rule replace_keeps[where d = 33]) (simp_all add: replace_evals)
qed

lemma concat_split_Cons:
  "\<not> startswith sep (c # x) \<Longrightarrow> concat (split sep (c # x)) = c # concat (split sep x)"
  by (cases "split sep x") auto

lemma restore_tail:
  "46 \<notin> set w \<Longrightarrow> startswith w (replace PRD [46] cs) \<Longrightarrow> startswith w cs"
proof (induction w arbitrary: cs)
  case Nil
  show ?case by simp
next
  case (Cons a w)
  show ?case
  proof (cases cs)
    case Nil
    with Cons.prems(2) show ?thesis by (simp add: PRD_eq)
  next
    case (Cons c cs')
    show ?thesis
    proof (cases "startswith PRD (c # cs')")
      case True
      then have "\<exists>y. replace PRD [46] (c # cs') = 46 # y"
        by (simp add: PRD_eq)
      with Cons.prems Cons show ?thesis by auto
    next
      case False
      then have "replace PRD [46] (c # cs') = c # replace PRD [46] cs'"
        by (simp add: PRD_eq)
      with Cons.prems(2) Cons have a: "a = c" and s: "startswith w (replace PRD [46] cs')"
        by simp_all
      have "46 \<notin> set w" using Cons.prems(1) by simp
      then have "startswith w cs'" using s by (rule Cons.IH)
      with a Cons show ?thesis by simp
    qed
  qed
qed

lemma restore_split: "concat (split STOP (replace PRD [46] t)) = unmark t"
proof (induction t rule: length_induct)
  case (1 t)
  note IH = 1(1)
  show ?case
  proof (cases t rule: text_cases)
    case 1
    then show ?thesis by (simp add: PRD_eq)
  next
    case (2 r)
    have "length r < length t" using 2 by (simp add: PRD_eq)
    with IH have ih: "concat (split STOP (replace PRD [46] r)) = unmark r" by blast
    have "replace PRD [46] (PRD @ r) = 46 # replace PRD [46] r" by (simp add: PRD_eq)
    moreover have "concat (split STOP (46 # x)) = 46 # concat (split STOP x)" for x
      by (rule concat_split_Cons) (simp add: STOP_eq)
    ultimately show ?thesis unfolding 2 using ih by (simp del: split.simps)
  next
    case (3 r)
    have "length r < length t" using 3 by (simp add: STOP_eq)
    with IH have ih: "concat (split STOP (replace PRD [46] r)) = unmark r" by blast
    have "replace PRD [46] (STOP @ r) = STOP @ replace PRD [46] r" by (simp add: PRD_eq STOP_eq)
    moreover have "split STOP (STOP @ x) = [] # split STOP x" for x by (simp add: STOP_eq)
    ultimately show ?thesis unfolding 3 using ih by (simp del: split.simps)
  next
    case (4 c cs)
    have "length cs < length t" using 4(1) by simp
    with IH have ih: "concat (split STOP (replace PRD [46] cs)) = unmark cs" by blast
    have r: "replace PRD [46] (c # cs) = c # replace PRD [46] cs"
      using 4(1,2) by (simp add: PRD_eq)
    have "\<not> startswith STOP (c # replace PRD [46] cs)"
    proof
      assume a: "startswith STOP (c # replace PRD [46] cs)"
      then have c: "c = 60" and st: "startswith [115, 116, 111, 112, 62] (replace PRD [46] cs)"
        by (simp_all add: STOP_eq)
      have "46 \<notin> set [115, 116, 111, 112, 62::nat]" by simp
      then have "startswith [115, 116, 111, 112, 62] cs" using st by (rule restore_tail)
      with c 4(1,3) show False by (simp add: STOP_eq)
    qed
    then have e: "concat (split STOP (c # replace PRD [46] cs))
        = c # concat (split STOP (replace PRD [46] cs))"
      by (rule concat_split_Cons)
    have u: "unmark (c # cs) = c # unmark cs" using 4(2,3) unfolding 4(1) by (rule unmark_stray)
    show ?thesis unfolding 4(1) r e u ih ..
  qed
qed

lemma filter_dropWhile:
  "(\<And>c. P c \<Longrightarrow> \<not> Q c) \<Longrightarrow> filter P (dropWhile Q s) = filter P s"
  by (induction s) auto

lemma filter_strip:
  assumes "\<And>c. P c \<Longrightarrow> \<not> isspace c"
  shows "filter P (strip s) = filter P s"
proof -
  have "filter P (strip s) = rev (filter P (dropWhile isspace (rev (dropWhile isspace s))))"
    by (simp add: strip_def rev_filter)
  also have "\<dots> = rev (filter P (rev (dropWhile isspace s)))"
    using assms by (simp add: filter_dropWhile)
  also have "\<dots> = filter P (dropWhile isspace s)" by (simp add: rev_filter)
  also have "\<dots> = filter P s" using assms by (simp add: filter_dropWhile)
  finally show ?thesis .
qed

lemma filter_concat_strip:
  assumes "\<And>c. P c \<Longrightarrow> \<not> isspace c"
  shows "filter P (concat (map strip ps)) = filter P (concat ps)"
  using assms by (induction ps) (simp_all add: filter_strip)

lemma concat_butlast: "ss \<noteq> [] \<Longrightarrow> last ss = [] \<Longrightarrow> concat (butlast ss) = concat ss"
  by (metis append_Nil2 append_butlast_last_id concat.simps(1,2) concat_append)

lemma finish_concat:
  assumes "\<And>c. P c \<Longrightarrow> \<not> isspace c"
  shows "filter P (concat (finish t)) = filter P (concat (split (str ''<stop>'') t))"
proof -
  let ?ss = "map strip (split (str ''<stop>'') t)"
  have "concat (finish t) = concat ?ss"
    by (auto simp: finish_def Let_def concat_butlast simp del: map_butlast)
  then show ?thesis using assms by (simp add: filter_concat_strip)
qed

lemma finish_restore:
  assumes "\<And>c. P c \<Longrightarrow> \<not> isspace c"
  shows "filter P (concat (finish (replace (str ''<prd>'') (str ''.'') t))) = filter P (unmark t)"
proof -
  have "str ''.'' = [46]" by (simp add: str_def)
  then show ?thesis
    using finish_concat[OF assms] restore_split[of t]
    by (simp add: PRD_def STOP_def)
qed

lemma pad_keeps:
  assumes "\<And>c. P c \<Longrightarrow> \<not> isspace c"
    and "\<not> contains (str ''<prd>'') text" and "\<not> contains (str ''<stop>'') text"
  shows "filter P (unmark (pad text)) = filter P text"
proof -
  have 1: "\<not> contains PRD (pad text)"
    unfolding PRD_def using assms(2) by (subst contains_pad) (simp_all add: str_def)
  have 2: "\<not> contains STOP (pad text)"
    unfolding STOP_def using assms(3) by (subst contains_pad) (simp_all add: str_def)
  have s: "\<not> P 32" "\<not> P 10" using assms(1)[of 32] assms(1)[of 10] by (auto simp: isspace_def)
  have "filter P (map (\<lambda>c. if c = 10 then 32 else c) text) = filter P text"
    using s by (induction "text") auto
  then have "filter P (pad text) = filter P text" using s by (simp add: pad_eq)
  with 1 2 show ?thesis by (simp add: unmark_no_markers)
qed

lemma letter_nonspace: "letter c \<Longrightarrow> \<not> isspace c" "nonspace c \<Longrightarrow> \<not> isspace c"
  by (simp_all add: letter_def nonspace_def)

lemma content_kept:
  assumes P: "\<And>c. P c \<Longrightarrow> \<not> isspace c"
    and a: "keeps P (run_passes passes_a)"
    and b: "filter P (unmark (run_passes passes_b (phd (ellipsis (run_passes passes_a (pad text))))))
        = filter P (unmark (phd (ellipsis (run_passes passes_a (pad text)))))"
    and t: "\<not> contains (str ''<prd>'') text" "\<not> contains (str ''<stop>'') text"
    and q: "quote_rule_idle text"
  shows "\<exists>ss. split_into_sentences text = Some ss \<and> filter P (concat ss) = filter P text"
proof -
  define t0 where "t0 = pad text"
  define t1 where "t1 = run_passes passes_a t0"
  define t2 where "t2 = ellipsis t1"
  define t3 where "t3 = phd t2"
  define t4 where "t4 = run_passes passes_b t3"
  define r1 where "r1 = replace (str ''.'') (str ''.<stop>'') t4"
  define r2 where "r2 = replace (str ''?'') (str ''?<stop>'') r1"
  define r3 where "r3 = replace (str ''!'') (str ''!<stop>'') r2"
  have k0: "filter P (unmark t0) = filter P text"
    unfolding t0_def using P t by (rule pad_keeps)
  have k1: "filter P (unmark t1) = filter P text"
    unfolding t1_def using keepsD[OF a, of t0] k0 by simp
  have k2: "filter P (unmark t2) = filter P text"
    unfolding t2_def using keepsD[OF ellipsis_keeps[of P], of t1] k1 by simp
  have k3: "filter P (unmark t3) = filter P text"
    unfolding t3_def using keepsD[OF phd_keeps[of P], of t2] k2 by simp
  have k4: "filter P (unmark t4) = filter P text"
    using b k3 unfolding t4_def t3_def t2_def t1_def t0_def by simp
  have sq: "swap_quotes t4 = t4"
    using q unfolding quote_rule_idle_def Let_def t4_def t3_def t2_def t1_def t0_def .
  have k5: "filter P (unmark r1) = filter P text"
    unfolding r1_def using keepsD[OF stops_keep(1)[of P], of t4] k4 by simp
  have k6: "filter P (unmark r2) = filter P text"
    unfolding r2_def using keepsD[OF stops_keep(2)[of P], of r1] k5 by simp
  have k7: "filter P (unmark r3) = filter P text"
    unfolding r3_def using keepsD[OF stops_keep(3)[of P], of r2] k6 by simp
  have "split_into_sentences text = Some (finish (replace (str ''<prd>'') (str ''.'') r3))"
    unfolding split_into_sentences_stages mark_def t0_def[symmetric] t1_def[symmetric]
      t2_def[symmetric] t3_def[symmetric] t4_def[symmetric] sq r1_def[symmetric]
      r2_def[symmetric] r3_def[symmetric] ..
  moreover have "filter P (concat (finish (replace (str ''<prd>'') (str ''.'') r3))) = filter P text"
    using finish_restore[of P r3, OF P] k7 by simp
  ultimately show ?thesis by simp
qed

lemma letters_kept:
  assumes "\<not> contains (str ''<prd>'') text" "\<not> contains (str ''<stop>'') text"
    and "quote_rule_idle text"
  shows "\<exists>ss. split_into_sentences text = Some ss \<and> filter letter (concat ss) = filter letter text"
proof (rule content_kept)
  show "letter c \<Longrightarrow> \<not> isspace c" for c by (rule letter_nonspace)
  show "keeps letter (run_passes passes_a)"
    using passes_a_letter by (intro run_passes_keeps letter_nonspace) auto
  have "keeps letter (run_passes passes_b)"
    using passes_b_letter by (intro run_passes_keeps letter_nonspace) auto
  then show "filter letter (unmark (run_passes passes_b (phd (ellipsis (run_passes passes_a (pad text))))))
        = filter letter (unmark (phd (ellipsis (run_passes passes_a (pad text)))))"
    by (rule keepsD)
qed (use assms in simp_all)

lemma passes_b_split:
  "passes_b = take 4 passes_b @
     [(cats [Chr 32, SUFFIXES, dot, Chr 32, STARTERS],
       [Lit (str '' ''), Ref 1, Lit (str ''<stop> ''), Ref 2])] @ drop 5 passes_b"
  by (simp add: passes_b_def)

lemma nonspace_kept:
  assumes "\<not> contains (str ''<prd>'') text" "\<not> contains (str ''<stop>'') text"
    and "quote_rule_idle text" and idle: "suffix_rule_idle text"
  shows "\<exists>ss. split_into_sentences text = Some ss \<and>
    filter nonspace (concat ss) = filter nonspace text"
proof (rule content_kept)
  show "nonspace c \<Longrightarrow> \<not> isspace c" for c by (rule letter_nonspace)
  show "keeps nonspace (run_passes passes_a)"
    using passes_a_nonspace by (intro run_passes_keeps letter_nonspace) auto
  define t3 where "t3 = phd (ellipsis (run_passes passes_a (pad text)))"
  have k1: "keeps nonspace (run_passes (take 4 passes_b))"
    using passes_b_nonspace by (intro run_passes_keeps letter_nonspace) auto
  have k2: "keeps nonspace (run_passes (drop 5 passes_b))"
    using passes_b_nonspace by (intro run_passes_keeps letter_nonspace) auto
  have "run_passes passes_b t3 = run_passes (drop 5 passes_b) (run_passes (take 4 passes_b) t3)"
    using idle unfolding suffix_rule_idle_def Let_def t3_def[symmetric]
    by (subst passes_b_split) (simp add: run_passes_append run_passes_Cons)
  moreover have "filter nonspace (unmark (run_passes (drop 5 passes_b) (run_passes (take 4 passes_b) t3)))
      = filter nonspace (unmark t3)"
    using keepsD[OF k1, of t3] keepsD[OF k2, of "run_passes (take 4 passes_b) t3"] by simp
  ultimately show "filter nonspace (unmark (run_passes passes_b (phd (ellipsis (run_passes passes_a (pad text))))))
        = filter nonspace (unmark (phd (ellipsis (run_passes passes_a (pad text)))))"
    unfolding t3_def by simp
qed (use assms in simp_all)

section \<open>A run of markers through the passes\<close>

text \<open>
  The passes behind the ellipsis rule rewrite the text on either side of a run of markers
  \<open><prd>\<close> closed by \<open><stop>\<close> on its own, and leave the run as it is: no pattern of
  theirs matches \<open><\<close> or \<open>>\<close>, and every match holds a character that no marker has.
\<close>

lemma take_le: "k \<le> length s \<Longrightarrow> take k (s @ t) = take k s"
  by simp

lemma takeWhile_stop: "\<not> P c \<Longrightarrow> takeWhile P (s @ c # x) = takeWhile P s"
  by (induction s) auto

lemma matches_local:
  "avoids c rx \<Longrightarrow> matches rx (s @ c # x) = map (\<lambda>(g, r). (g, r @ c # x)) (matches rx s)"
proof (induction rx arbitrary: s)
  case Eps
  show ?case by simp
next
  case (Chr d)
  then show ?case by (cases s) auto
next
  case (Cls rs)
  then show ?case by (cases s) auto
next
  case Space
  then show ?case by (cases s) auto
next
  case (Cat a b)
  then have a: "\<And>s. matches a (s @ c # x) = map (\<lambda>(g, r). (g, r @ c # x)) (matches a s)"
    and b: "\<And>s. matches b (s @ c # x) = map (\<lambda>(g, r). (g, r @ c # x)) (matches b s)"
    by simp_all
  show ?case by (simp add: a b map_concat o_def split_def)
next
  case (Alt a b)
  then have a: "\<And>s. matches a (s @ c # x) = map (\<lambda>(g, r). (g, r @ c # x)) (matches a s)"
    and b: "\<And>s. matches b (s @ c # x) = map (\<lambda>(g, r). (g, r @ c # x)) (matches b s)"
    by simp_all
  show ?case by (simp add: a b o_def split_def)
next
  case (Opt a)
  then have a: "\<And>s. matches a (s @ c # x) = map (\<lambda>(g, r). (g, r @ c # x)) (matches a s)"
    by simp
  show ?case by (simp add: a o_def split_def)
next
  case (Grp a)
  then have a: "matches a (s @ c # x) = map (\<lambda>(g, r). (g, r @ c # x)) (matches a s)"
    by simp
  have "take (length (s @ c # x) - length (r @ c # x)) (s @ c # x) = take (length s - length r) s"
    for r :: ustring by simp
  then show ?case by (simp add: a o_def split_def)
next
  case (AtLeast n d)
  then have cd: "\<not> (\<lambda>x. x = d) c" by simp
  define k where "k = length (takeWhile (\<lambda>x. x = d) s)"
  have k: "length (takeWhile (\<lambda>x. x = d) (s @ c # x)) = k"
    unfolding k_def using takeWhile_stop[of "\<lambda>x. x = d" c s x] cd by simp
  have kl: "k \<le> length s" unfolding k_def by (rule length_takeWhile_le)
  have "map (\<lambda>j. ([], drop j (s @ c # x))) (rev [n..<Suc k])
      = map (\<lambda>j. ([]::ustring option list, drop j s @ c # x)) (rev [n..<Suc k])"
    using kl by (intro map_cong) auto
  then show ?case unfolding matches.simps Let_def k k_def[symmetric]
    by (simp add: o_def)
qed

lemma scan_local:
  assumes "must d rx" and "avoids c rx"
  shows "sub_scan rx f (s @ c # x) = sub_scan rx f s @ sub_scan rx f (c # x)"
proof (induction s rule: length_induct)
  case (1 s)
  note IH = 1(1)
  show ?case
  proof (cases s)
    case Nil
    have "matches rx [] = []" using assms(1) by (rule matches_none) simp
    with Nil show ?thesis by (simp del: matches.simps)
  next
    case (Cons a s')
    have ml: "matches rx ((a # s') @ c # x) = map (\<lambda>(g, r). (g, r @ c # x)) (matches rx (a # s'))"
      using assms(2) by (rule matches_local)
    show ?thesis
    proof (cases "matches rx (a # s')")
      case Nil
      have "length s' < length s" using Cons by simp
      with IH have "sub_scan rx f (s' @ c # x) = sub_scan rx f s' @ sub_scan rx f (c # x)" by blast
      with Nil ml show ?thesis unfolding Cons by (simp del: matches.simps)
    next
      case (Cons p ms)
      obtain g r where p: "p = (g, r)" by (cases p)
      have m: "matches rx (a # s') = (g, r) # ms" using Cons p by simp
      then have in_m: "(g, r) \<in> set (matches rx (a # s'))" by simp
      from matches_suffix[OF in_m] obtain m0 where m0: "a # s' = m0 @ r" ..
      have "d \<in> set (take (length (a # s') - length r) (a # s'))"
        using assms(1) in_m by (rule matches_must)
      then have "m0 \<noteq> []" using m0 by auto
      then have lt: "length r < length (a # s')"
        using m0 by (metis length_append length_greater_0_conv less_add_same_cancel2)
      have lt2: "length (r @ c # x) < length ((a # s') @ c # x)" using lt by simp
      have tk: "take (length ((a # s') @ c # x) - length (r @ c # x)) ((a # s') @ c # x)
          = take (length (a # s') - length r) (a # s')"
        using take_le[of "length (a # s') - length r" "a # s'" "c # x"]
        by (simp del: take_append)
      have big: "matches rx ((a # s') @ c # x) = (g, r @ c # x) # map (\<lambda>(g, r). (g, r @ c # x)) ms"
        using ml m by simp
      have "length r < length s" using lt \<open>s = a # s'\<close> by simp
      with IH have ih: "sub_scan rx f (r @ c # x) = sub_scan rx f r @ sub_scan rx f (c # x)" by blast
      have 1: "sub_scan rx f ((a # s') @ c # x)
          = f (Some (take (length (a # s') - length r) (a # s')) # g) @ sub_scan rx f (r @ c # x)"
        using big lt2 tk sub_scan.simps(2)[of rx f a "s' @ c # x"]
        by (simp del: matches.simps sub_scan.simps)
      have 2: "sub_scan rx f (a # s')
          = f (Some (take (length (a # s') - length r) (a # s')) # g) @ sub_scan rx f r"
        using m lt by (simp del: matches.simps)
      show ?thesis unfolding \<open>s = a # s'\<close> 1 2 ih by simp
    qed
  qed
qed

lemma mrun_Suc: "mrun (Suc n) = PRD @ mrun n" and mrun_0: "mrun 0 = STOP"
  by (simp_all add: mrun_def PRD_def STOP_def)

lemma mrun_head: "\<exists>y. mrun n = 60 # y"
  by (cases n) (simp_all add: mrun_Suc mrun_0 PRD_eq STOP_eq)

lemma scan_skip_run:
  assumes "must d rx" and "avoids 62 rx" and "d \<notin> marker_chars"
  shows "sub_scan rx f (mrun n @ b) = mrun n @ sub_scan rx f b"
  by (induction n) (simp_all add: mrun_Suc mrun_0 scan_skip[OF assms] del: sub_scan.simps)

lemma scan_around:
  assumes "must d rx" and "d \<notin> marker_chars" and "avoids 60 rx" and "avoids 62 rx"
  shows "around (sub_scan rx f)"
  unfolding around_def
proof (intro allI)
  fix a b n
  obtain y where y: "mrun n = 60 # y" using mrun_head by blast
  have "sub_scan rx f (a @ mrun n @ b) = sub_scan rx f a @ sub_scan rx f (mrun n @ b)"
    unfolding y using scan_local[OF assms(1,3), of f a "y @ b"] by simp
  then show "sub_scan rx f (a @ mrun n @ b) = sub_scan rx f a @ mrun n @ sub_scan rx f b"
    by (simp add: scan_skip_run[OF assms(1,4,2)])
qed

lemma around_comp: "around F \<Longrightarrow> around G \<Longrightarrow> around (\<lambda>s. G (F s))"
  by (simp add: around_def)

lemma replace_around:
  assumes "d \<in> set old" "d \<notin> marker_chars" "60 \<notin> set old" "62 \<notin> set old"
  shows "around (replace old new)"
proof -
  have ne: "old \<noteq> []" using assms(1) by auto
  have "around (sub_scan (word old) (\<lambda>m. new))"
    using assms by (intro scan_around[where d = d] must_word avoids_word)
  then show ?thesis by (simp add: around_def replace_scan[OF ne])
qed

lemma run_passes_around:
  "\<forall>(rx, t) \<in> set ps. must 46 rx \<and> avoids 60 rx \<and> avoids 62 rx \<Longrightarrow> around (run_passes ps)"
proof (induction ps)
  case Nil
  show ?case by (simp add: run_passes_def around_def)
next
  case (Cons p ps)
  obtain rx t where p: "p = (rx, t)" by (cases p)
  have "around (sub_scan rx (expand t))"
    using Cons.prems p by (intro scan_around[where d = 46]) (auto simp: marker_chars_def)
  moreover have "around (run_passes ps)" using Cons by simp
  ultimately show ?case unfolding p run_passes_Cons[abs_def] by (simp add: around_def)
qed

lemma passes_b_around: "around (run_passes passes_b)"
  using passes_b_letter by (intro run_passes_around) auto

lemma phd_replace: "phd s = replace (str ''Ph.D.'') (str ''Ph<prd>D<prd>'') s"
proof (cases "contains (str ''Ph.D'') s")
  case True
  then show ?thesis by (simp add: phd_def)
next
  case False
  have e: "str ''Ph.D.'' = str ''Ph.D'' @ [46]" by (simp add: str_def)
  have "\<not> contains (str ''Ph.D.'') s"
  proof
    assume "contains (str ''Ph.D.'') s"
    then obtain a b where "s = a @ (str ''Ph.D'' @ [46]) @ b" unfolding e contains_iff by blast
    then have "s = a @ str ''Ph.D'' @ ([46] @ b)" by simp
    then have "contains (str ''Ph.D'') s" unfolding contains_iff by blast
    with False show False by simp
  qed
  then have "replace (str ''Ph.D.'') (str ''Ph<prd>D<prd>'') s = s"
    by (intro replace_id) (simp add: str_def)
  with False show ?thesis by (simp add: phd_def)
qed

lemma phd_around: "around phd"
proof -
  have "around (replace (str ''Ph.D.'') (str ''Ph<prd>D<prd>''))"
    by (rule replace_around[where d = 46]) (simp_all add: replace_evals)
  then show ?thesis by (simp add: around_def phd_replace)
qed

lemma swap_before_around:
  assumes "p \<notin> marker_chars" "p \<noteq> 60" "p \<noteq> 62" "q \<noteq> 60" "q \<noteq> 62"
  shows "around (swap_before q p)"
proof -
  have "around (replace [p, q] [q, p])"
    using assms by (intro replace_around[where d = p]) auto
  then show ?thesis by (simp add: around_def replace_pair)
qed

lemma swap_quotes_around: "around swap_quotes"
proof -
  have 1: "around (swap_before 8221 46)" by (rule swap_before_around) (simp_all add: marker_chars_def)
  have 2: "around (swap_before 34 46)" by (rule swap_before_around) (simp_all add: marker_chars_def)
  have 3: "around (swap_before 34 33)" by (rule swap_before_around) (simp_all add: marker_chars_def)
  have 4: "around (swap_before 34 63)" by (rule swap_before_around) (simp_all add: marker_chars_def)
  show ?thesis using 1 2 3 4 unfolding around_def swap_quotes_rules by simp
qed

lemma stops_around:
  "around (replace (str ''.'') (str ''.<stop>''))"
  "around (replace (str ''?'') (str ''?<stop>''))"
  "around (replace (str ''!'') (str ''!<stop>''))"
proof -
  show "around (replace (str ''.'') (str ''.<stop>''))"
    by (rule replace_around[where d = 46]) (simp_all add: replace_evals)
  show "around (replace (str ''?'') (str ''?<stop>''))"
    by (rule replace_around[where d = 63]) (simp_all add: replace_evals)
  show "around (replace (str ''!'') (str ''!<stop>''))"
    by (rule replace_around[where d = 33]) (simp_all add: replace_evals)
qed

lemma startswith_local:
  assumes "c \<notin> set (tl old)" and "s \<noteq> []"
  shows "startswith old (s @ c # x) \<longleftrightarrow> startswith old s"
proof
  assume "startswith old s"
  then show "startswith old (s @ c # x)" by (auto simp: startswith_iff)
next
  assume "startswith old (s @ c # x)"
  then obtain r where r: "s @ c # x = old @ r" by (auto simp: startswith_iff)
  show "startswith old s"
  proof (cases "length old \<le> length s")
    case True
    have "take (length old) (s @ c # x) = old" using r by simp
    then have "take (length old) s = old" using True by simp
    then have "s = old @ drop (length old) s" by (metis append_take_drop_id)
    then show ?thesis unfolding startswith_iff by blast
  next
    case False
    then have l: "length s < length old" by simp
    have "old ! length s = (s @ c # x) ! length s"
      unfolding r using l by (simp add: nth_append)
    then have "old ! length s = c" by simp
    moreover have "0 < length s" using assms(2) by simp
    ultimately have "c \<in> set (tl old)"
    proof (cases old)
      case Nil
      with l show ?thesis by simp
    next
      case (Cons o' os)
      obtain k where k: "length s = Suc k" using \<open>0 < length s\<close> by (cases "length s") auto
      have "k < length os" using l k Cons by simp
      moreover have "os ! k = c" using \<open>old ! length s = c\<close> k Cons by simp
      ultimately show ?thesis using Cons nth_mem by fastforce
    qed
    with assms(1) show ?thesis by simp
  qed
qed

lemma replace_local:
  assumes "c \<notin> set (tl old)" and "old \<noteq> []"
  shows "replace old new (s @ c # x) = replace old new s @ replace old new (c # x)"
proof (induction s rule: length_induct)
  case (1 s)
  note IH = 1(1)
  show ?case
  proof (cases s)
    case Nil
    then show ?thesis using assms(2) by simp
  next
    case (Cons a s')
    have sw: "startswith old ((a # s') @ c # x) \<longleftrightarrow> startswith old (a # s')"
      using assms(1) by (rule startswith_local) simp
    show ?thesis
    proof (cases "startswith old (a # s')")
      case True
      then obtain r where r: "a # s' = old @ r" by (auto simp: startswith_iff)
      have lr: "length r < length s" using r Cons assms(2)
        by (metis length_append length_greater_0_conv less_add_same_cancel2)
      have d1: "drop (length old) ((a # s') @ c # x) = r @ c # x" unfolding r by simp
      have d2: "drop (length old) (a # s') = r" unfolding r by simp
      have 1: "replace old new ((a # s') @ c # x) = new @ replace old new (r @ c # x)"
        using True sw assms(2) d1 replace.simps(2)[of old new a "s' @ c # x"] by simp
      have 2: "replace old new (a # s') = new @ replace old new r"
        using True assms(2) d2 by simp
      have "replace old new (r @ c # x) = replace old new r @ replace old new (c # x)"
        using IH lr by blast
      then show ?thesis unfolding Cons 1 2 by simp
    next
      case False
      have 1: "replace old new ((a # s') @ c # x) = a # replace old new (s' @ c # x)"
        using False sw assms(2) replace.simps(2)[of old new a "s' @ c # x"] by simp
      have 2: "replace old new (a # s') = a # replace old new s'"
        using False assms(2) by simp
      have "replace old new (s' @ c # x) = replace old new s' @ replace old new (c # x)"
        using IH Cons by simp
      then show ?thesis unfolding Cons 1 2 by simp
    qed
  qed
qed

lemma restore_around:
  "replace (str ''<prd>'') (str ''.'') (a @ mrun n @ b)
    = replace (str ''<prd>'') (str ''.'') a @ replicate n 46 @ str ''<stop>''
      @ replace (str ''<prd>'') (str ''.'') b"
proof -
  obtain y where y: "mrun n = 60 # y" using mrun_head by blast
  have "replace (str ''<prd>'') (str ''.'') (a @ 60 # y @ b)
      = replace (str ''<prd>'') (str ''.'') a @ replace (str ''<prd>'') (str ''.'') (60 # y @ b)"
    by (rule replace_local) (simp_all add: str_def)
  then have "replace (str ''<prd>'') (str ''.'') (a @ mrun n @ b)
      = replace (str ''<prd>'') (str ''.'') a @ replace (str ''<prd>'') (str ''.'') (mrun n @ b)"
    by (simp add: y)
  also have "replace (str ''<prd>'') (str ''.'') (mrun n @ b)
      = replicate n 46 @ str ''<stop>'' @ replace (str ''<prd>'') (str ''.'') b"
    using restore_run[of n b] by (simp add: mrun_def)
  finally show ?thesis .
qed

lemma mark_around:
  assumes "around F"
  shows "mark (F (a @ mrun n @ b)) = mark (F a) @ replicate n 46 @ str ''<stop>'' @ mark (F b)"
proof -
  define K where "K = (\<lambda>s. replace (str ''!'') (str ''!<stop>'')
      (replace (str ''?'') (str ''?<stop>'') (replace (str ''.'') (str ''.<stop>'') (F s))))"
  have "around K" unfolding K_def using assms stops_around by (simp add: around_def)
  then have "K (a @ mrun n @ b) = K a @ mrun n @ K b" by (simp add: around_def)
  moreover have "mark (F s) = replace (str ''<prd>'') (str ''.'') (K s)" for s
    by (simp add: mark_def K_def)
  ultimately show ?thesis by (simp add: restore_around)
qed

lemma after_ellipsis_around:
  "mark (swap_quotes (run_passes passes_b (phd (a @ mrun n @ b))))
    = mark (swap_quotes (run_passes passes_b (phd a))) @ replicate n 46 @ str ''<stop>''
      @ mark (swap_quotes (run_passes passes_b (phd b)))"
proof -
  have "around (\<lambda>s. swap_quotes (run_passes passes_b (phd s)))"
    using phd_around passes_b_around swap_quotes_around by (simp add: around_def)
  then show ?thesis by (rule mark_around)
qed

lemma split_before_char:
  assumes "c \<notin> set sep" and "sep \<noteq> []"
  shows "split sep (s @ c # z)
    = butlast (split sep s) @ [last (split sep s) @ c # hd (split sep z)] @ tl (split sep z)"
proof (induction s rule: length_induct)
  case (1 s)
  note IH = 1(1)
  show ?case
  proof (cases s)
    case Nil
    have "\<not> startswith sep (c # z)" using assms by (cases sep) auto
    then show ?thesis unfolding Nil by (cases "split sep z") simp_all
  next
    case (Cons a s')
    have tl: "c \<notin> set (tl sep)" using assms by (cases sep) auto
    have sw: "startswith sep ((a # s') @ c # z) \<longleftrightarrow> startswith sep (a # s')"
      using tl by (rule startswith_local) simp
    show ?thesis
    proof (cases "startswith sep (a # s')")
      case True
      then obtain r where r: "a # s' = sep @ r" by (auto simp: startswith_iff)
      have lr: "length r < length s" using r Cons assms(2)
        by (metis length_append length_greater_0_conv less_add_same_cancel2)
      have d1: "drop (length sep) ((a # s') @ c # z) = r @ c # z" unfolding r by simp
      have d2: "drop (length sep) (a # s') = r" unfolding r by simp
      have 1: "split sep ((a # s') @ c # z) = [] # split sep (r @ c # z)"
        using True sw assms(2) d1 split.simps(2)[of sep a "s' @ c # z"] by simp
      have 2: "split sep (a # s') = [] # split sep r"
        using True assms(2) d2 by simp
      have ih: "split sep (r @ c # z)
          = butlast (split sep r) @ [last (split sep r) @ c # hd (split sep z)] @ tl (split sep z)"
        using IH lr by blast
      show ?thesis unfolding Cons 1 2 ih by simp
    next
      case False
      have ih: "split sep (s' @ c # z)
          = butlast (split sep s') @ [last (split sep s') @ c # hd (split sep z)] @ tl (split sep z)"
        using IH Cons by simp
      obtain p ps where ps: "split sep s' = p # ps" by (cases "split sep s'") simp_all
      have 1: "split sep ((a # s') @ c # z)
          = (case split sep (s' @ c # z) of p # ps \<Rightarrow> (a # p) # ps | [] \<Rightarrow> [[a]])"
        using False sw split.simps(2)[of sep a "s' @ c # z"] by simp
      have 2: "split sep (a # s') = (a # p) # ps"
        using False ps by simp
      show ?thesis unfolding Cons 1 2 ih ps by (cases ps) simp_all
    qed
  qed
qed

lemma split_around:
  assumes "0 < n"
  shows "split (str ''<stop>'') (x @ replicate n 46 @ str ''<stop>'' @ y)
    = butlast (split (str ''<stop>'') x) @ [last (split (str ''<stop>'') x) @ replicate n 46]
      @ split (str ''<stop>'') y"
proof -
  obtain m where n: "n = Suc m" using assms by (cases n) auto
  have "split (str ''<stop>'') (x @ 46 # (replicate m 46 @ str ''<stop>'' @ y))
    = butlast (split (str ''<stop>'') x)
      @ [last (split (str ''<stop>'') x) @ 46 # hd (split (str ''<stop>'') (replicate m 46 @ str ''<stop>'' @ y))]
      @ tl (split (str ''<stop>'') (replicate m 46 @ str ''<stop>'' @ y))"
    by (rule split_before_char) (simp_all add: str_def)
  then show ?thesis unfolding n split_after_run by (simp add: replicate_append_same)
qed

lemma strip_before_run:
  assumes "0 < n"
  shows "strip (p @ replicate n 46) = dropWhile isspace p @ replicate n 46"
proof -
  have ns: "\<not> isspace 46" by (simp add: isspace_def)
  obtain m where n: "n = Suc m" using assms by (cases n) auto
  have 1: "dropWhile isspace (p @ replicate n 46) = dropWhile isspace p @ replicate n 46"
    using ns unfolding n by (induction p) auto
  have "rev (dropWhile isspace p @ replicate n 46) = replicate n 46 @ rev (dropWhile isspace p)"
    by simp
  then have "rev (dropWhile isspace p @ replicate n 46) = 46 # (replicate m 46 @ rev (dropWhile isspace p))"
    unfolding n by simp
  then obtain w where "rev (dropWhile isspace p @ replicate n 46) = 46 # w" by blast
  then have 2: "dropWhile isspace (rev (dropWhile isspace p @ replicate n 46))
      = rev (dropWhile isspace p @ replicate n 46)"
    using ns by simp
  show ?thesis unfolding strip_def 1 2 by simp
qed

lemma finish_around:
  assumes "0 < n"
  shows "finish (x @ replicate n 46 @ str ''<stop>'' @ y)
    = map strip (butlast (split (str ''<stop>'') x))
      @ [dropWhile isspace (last (split (str ''<stop>'') x)) @ replicate n 46] @ finish y"
proof -
  define ys where "ys = map strip (split (str ''<stop>'') y)"
  have ne: "ys \<noteq> []" by (simp add: ys_def)
  define hs where "hs = map strip (butlast (split (str ''<stop>'') x))
      @ [dropWhile isspace (last (split (str ''<stop>'') x)) @ replicate n 46]"
  have m: "map strip (split (str ''<stop>'') (x @ replicate n 46 @ str ''<stop>'' @ y)) = hs @ ys"
    unfolding split_around[OF assms] hs_def ys_def by (simp add: strip_before_run[OF assms])
  have f: "finish y = (if last ys = [] then butlast ys else ys)"
    using ne by (simp add: finish_def ys_def[symmetric] Let_def)
  have "finish (x @ replicate n 46 @ str ''<stop>'' @ y)
      = (if last (hs @ ys) = [] then butlast (hs @ ys) else hs @ ys)"
    using ne unfolding finish_def m Let_def by simp
  also have "\<dots> = hs @ finish y" using ne by (simp add: f butlast_append)
  finally show ?thesis unfolding hs_def by simp
qed

lemma after_ellipsis_no_dot:
  assumes "46 \<notin> set s"
  shows "mark (swap_quotes (run_passes passes_b (phd (ellipsis s)))) = mark (swap_quotes s)"
proof -
  have "run_passes passes_b s = s" using musts assms by (intro run_passes_id[of _ 46]) auto
  then show ?thesis by (simp add: ellipsis_id[OF assms] phd_id[OF assms])
qed

section \<open>Evaluation\<close>

text \<open>The defining equations that evaluate the function on a concrete text.\<close>

lemmas evals =
  split_into_sentences_def re_sub_def PREFIXES_def WEBSITES_def DIGITS_def ALPHABETS_def
  ACRONYMS_def STARTERS_def SUFFIXES_def MULTIPLE_DOTS_def ellipsis_def swap_quotes_def
  str_def dot_def group_def strip_def isspace_def

lemmas tail_evals =
  finish_def mark_def swap_quotes_def pad_def str_def strip_def isspace_def

section \<open>Properties\<close>

text \<open>
  C1, as the specification states it: for every text without \<open>.\<close>, \<open>!\<close> and \<open>?\<close> the
  result is exactly one sentence, the trimmed text. The function does otherwise on three
  kinds of such texts: a blank text gives no sentence at all, a newline inside the text
  comes back as a space, and a text that holds the marker \<open><stop>\<close> is split there.
\<close>

theorem plain_text_counterexample:
  "split_into_sentences [] = Some [] \<and>
   split_into_sentences (str ''a'' @ [10] @ str ''b'') = Some [str ''a b''] \<and>
   strip (str ''a'' @ [10] @ str ''b'') = str ''a'' @ [10] @ str ''b'' \<and>
   split_into_sentences (str ''a<stop>b'') = Some [str ''a'', str ''b'']"
proof -
  have 1: "split_into_sentences [] = Some []"
    by (subst no_dot_stages) (simp_all add: tail_evals)
  have 2: "split_into_sentences (str ''a'' @ [10] @ str ''b'') = Some [str ''a b'']"
    by (subst no_dot_stages) (simp_all add: tail_evals)
  have 3: "strip (str ''a'' @ [10] @ str ''b'') = str ''a'' @ [10] @ str ''b''"
    by (simp add: tail_evals)
  have 4: "split_into_sentences (str ''a<stop>b'') = Some [str ''a'', str ''b'']"
    by (subst no_dot_stages) (simp_all add: tail_evals)
  from 1 2 3 4 show ?thesis by blast
qed

text \<open>
  C1, amended: for every text that holds none of \<open>.\<close>, \<open>!\<close>, \<open>?\<close> and neither marker
  (\<open><prd>\<close>, \<open><stop>\<close>), the result is the text with every newline replaced by a space
  and the surrounding whitespace removed, as the only sentence; when nothing is left of
  the text (it is blank), the result is empty.
\<close>

theorem plain_text_one_sentence:
  assumes "46 \<notin> set text" and "33 \<notin> set text" and "63 \<notin> set text"
    and "\<not> contains (str ''<prd>'') text" and "\<not> contains (str ''<stop>'') text"
  shows "split_into_sentences text =
    Some (if strip (replace [10] (str '' '') text) = [] then []
          else [strip (replace [10] (str '' '') text)])"
  using assms by (rule plain_text)

theorem plain_text_one_sentence_witness:
  "46 \<notin> set (str '' ab'' @ [10] @ str ''cd  '') \<and>
   33 \<notin> set (str '' ab'' @ [10] @ str ''cd  '') \<and>
   63 \<notin> set (str '' ab'' @ [10] @ str ''cd  '') \<and>
   \<not> contains (str ''<prd>'') (str '' ab'' @ [10] @ str ''cd  '') \<and>
   \<not> contains (str ''<stop>'') (str '' ab'' @ [10] @ str ''cd  '') \<and>
   split_into_sentences (str '' ab'' @ [10] @ str ''cd  '') = Some [str ''ab cd'']"
  using plain_text_one_sentence [of "str '' ab'' @ [10] @ str ''cd  ''"]
  by (simp add: tail_evals)

text \<open>
  C2: \<open>generate_keywords(n)\<close> is to return \<open>n\<close> pairwise distinct strings of the word
  list. The function samples positions without replacement, but the word list holds
  the same word at several positions (\<open>asia\<close> at 39 and at 58), so it is not a list of
  distinct words, and the sample of these two positions is the same string twice.
\<close>

theorem generate_keywords_repeats:
  "length WORD_LIST = 1525 \<and> \<not> distinct WORD_LIST \<and>
   picks_ok (length WORD_LIST) 2 [39, 58] \<and>
   generate_keywords 2 [39, 58] = Inr [str ''asia'', str ''asia'']"
proof -
  have "WORD_LIST ! 39 = WORD_LIST ! 58" by (simp add: asia_twice)
  then have "\<not> distinct WORD_LIST"
    using nth_eq_iff_index_eq[of WORD_LIST 39 58] by (auto simp: length_WORD_LIST)
  then show ?thesis
    by (simp add: generate_keywords_def sample_def picks_ok_def length_WORD_LIST asia_twice)
qed

text \<open>
  C3: the text that reaches the pass over the periods holds a maximal run of \<open>n \<ge> 2\<close>
  periods (no period before it, none behind it). The pass writes exactly \<open>n\<close> markers
  \<open><prd>\<close> and one \<open><stop>\<close> for the run and rewrites the text on either side on its own.
  The passes that follow, the restoration included, leave \<open>n\<close> periods and the \<open><stop>\<close>
  behind them where the run stood, so the function returns a sentence that ends with the
  \<open>n\<close> periods: the pieces before it come from the text before the run, the pieces behind
  it from the text behind the run.
\<close>

theorem ellipsis_run:
  assumes "run_passes passes_a (pad text) = pre @ replicate n 46 @ post"
    and "2 \<le> n" and "pre = [] \<or> last pre \<noteq> 46" and "post = [] \<or> hd post \<noteq> 46"
  shows "ellipsis (pre @ replicate n 46 @ post) =
           ellipsis pre @ concat (replicate n (str ''<prd>'')) @ str ''<stop>'' @ ellipsis post \<and>
         mark (swap_quotes (run_passes passes_b (phd (ellipsis (pre @ replicate n 46 @ post))))) =
           mark (swap_quotes (run_passes passes_b (phd (ellipsis pre))))
           @ replicate n 46 @ str ''<stop>''
           @ mark (swap_quotes (run_passes passes_b (phd (ellipsis post)))) \<and>
         split_into_sentences text = Some
           (map strip (butlast (split (str ''<stop>'')
              (mark (swap_quotes (run_passes passes_b (phd (ellipsis pre)))))))
            @ [dropWhile isspace (last (split (str ''<stop>'')
                 (mark (swap_quotes (run_passes passes_b (phd (ellipsis pre))))))) @ replicate n 46]
            @ finish (mark (swap_quotes (run_passes passes_b (phd (ellipsis post))))))"
proof -
  have "ellipsis (pre @ replicate n 46 @ post) = ellipsis pre @ ellipsis (replicate n 46 @ post)"
    using assms(3) by (rule ellipsis_before_run)
  also have "ellipsis (replicate n 46 @ post) =
      concat (replicate n (str ''<prd>'')) @ str ''<stop>'' @ ellipsis post"
    using assms(2,4) by (rule ellipsis_at_run)
  finally have 1: "ellipsis (pre @ replicate n 46 @ post) =
      ellipsis pre @ concat (replicate n (str ''<prd>'')) @ str ''<stop>'' @ ellipsis post" .
  then have e: "ellipsis (pre @ replicate n 46 @ post) = ellipsis pre @ mrun n @ ellipsis post"
    by (simp add: mrun_def)
  have 2: "mark (swap_quotes (run_passes passes_b (phd (ellipsis (pre @ replicate n 46 @ post))))) =
           mark (swap_quotes (run_passes passes_b (phd (ellipsis pre))))
           @ replicate n 46 @ str ''<stop>''
           @ mark (swap_quotes (run_passes passes_b (phd (ellipsis post))))"
    unfolding e by (rule after_ellipsis_around)
  have n: "0 < n" using assms(2) by simp
  show ?thesis
    using 1 2 unfolding split_into_sentences_stages assms(1)
    by (simp only: finish_around[OF n] simp_thms)
qed

theorem ellipsis_run_witness:
  "run_passes passes_a (pad (str ''Wait... really?'')) = str '' Wait... really?  '' \<and>
   last (str '' Wait'') \<noteq> 46 \<and> hd (str '' really?  '') \<noteq> 46 \<and>
   ellipsis (str '' Wait... really?  '') = str '' Wait<prd><prd><prd><stop> really?  '' \<and>
   mark (swap_quotes (run_passes passes_b (phd (str '' Wait<prd><prd><prd><stop> really?  ''))))
     = str '' Wait...<stop> really?<stop>  '' \<and>
   split_into_sentences (str ''Wait... really?'') = Some [str ''Wait...'', str ''really?'']"
proof -
  have 3: "replicate 3 (46::nat) = str ''...''"
    by (simp add: str_def numeral_3_eq_3)
  have 4: "concat (replicate 3 (str ''<prd>'')) = str ''<prd><prd><prd>''"
    by (simp add: str_def numeral_3_eq_3)
  have h: "run_passes passes_a (pad (str ''Wait... really?''))
      = str '' Wait'' @ replicate 3 46 @ str '' really?  ''"
    unfolding 3 by (simp add: run_passes_def passes_a_def pad_def evals)
  have e: "ellipsis (str '' Wait'') = str '' Wait''"
    "ellipsis (str '' really?  '') = str '' really?  ''"
    by (simp_all add: ellipsis_id str_def)
  have x: "mark (swap_quotes (run_passes passes_b (phd (ellipsis (str '' Wait''))))) = str '' Wait''"
    by (subst after_ellipsis_no_dot) (simp_all add: tail_evals)
  have y: "mark (swap_quotes (run_passes passes_b (phd (ellipsis (str '' really?  '')))))
      = str '' really?<stop>  ''"
    by (subst after_ellipsis_no_dot) (simp_all add: tail_evals)
  have c: "str '' Wait'' @ str ''...'' @ str '' really?  '' = str '' Wait... really?  ''"
    "str '' Wait'' @ str ''<prd><prd><prd>'' @ str ''<stop>'' @ str '' really?  ''
      = str '' Wait<prd><prd><prd><stop> really?  ''"
    "str '' Wait'' @ str ''...'' @ str ''<stop>'' @ str '' really?<stop>  ''
      = str '' Wait...<stop> really?<stop>  ''"
    by (simp_all add: str_def)
  have f: "map strip (butlast (split (str ''<stop>'') (str '' Wait'')))
      @ [dropWhile isspace (last (split (str ''<stop>'') (str '' Wait''))) @ str ''...'']
      @ finish (str '' really?<stop>  '') = [str ''Wait...'', str ''really?'']"
    by (simp add: tail_evals)
  have "(2::nat) \<le> 3" "str '' Wait'' = [] \<or> last (str '' Wait'') \<noteq> 46"
    "str '' really?  '' = [] \<or> hd (str '' really?  '') \<noteq> 46"
    by (simp_all add: str_def)
  from ellipsis_run [OF h this]
  have r: "ellipsis (str '' Wait... really?  '') = str '' Wait<prd><prd><prd><stop> really?  '' \<and>
    mark (swap_quotes (run_passes passes_b (phd (ellipsis (str '' Wait... really?  '')))))
      = str '' Wait...<stop> really?<stop>  '' \<and>
    split_into_sentences (str ''Wait... really?'') = Some [str ''Wait...'', str ''really?'']"
    unfolding x y unfolding e 3 4 c f .
  have r1: "ellipsis (str '' Wait... really?  '') = str '' Wait<prd><prd><prd><stop> really?  ''"
    using r by (rule conjunct1)
  have r2: "mark (swap_quotes (run_passes passes_b (phd (str '' Wait<prd><prd><prd><stop> really?  ''))))
      = str '' Wait...<stop> really?<stop>  ''"
    using r unfolding r1 by (elim conjE)
  have r3: "split_into_sentences (str ''Wait... really?'') = Some [str ''Wait...'', str ''really?'']"
    using r by (elim conjE)
  have m: "last (str '' Wait'') \<noteq> 46" "hd (str '' really?  '') \<noteq> 46"
    by (simp_all add: str_def)
  show ?thesis using h m r1 r2 r3 unfolding 3 c by (intro conjI)
qed

text \<open>
  C4: a \<open>.\<close>, \<open>!\<close> or \<open>?\<close> immediately before a closing double quote, curly (U+201D) or
  straight, is to change places with the quote before the boundaries are marked. The
  function does so for \<open>!\<close> before a straight quote and for \<open>.\<close> before a curly one,
  each text below giving one sentence; it has no rule for \<open>!\<close> and \<open>?\<close> before a curly
  quote, and there the boundary falls before the quote, which is left as a sentence of
  its own.
\<close>

theorem curly_quote_not_swapped:
  "split_into_sentences (34 # str ''Hi!'' @ [34]) = Some [34 # str ''Hi'' @ 34 # str ''!''] \<and>
   split_into_sentences (8220 # str ''Hi.'' @ [8221]) = Some [8220 # str ''Hi'' @ 8221 # str ''.''] \<and>
   swap_quotes [33, 8221] = [33, 8221] \<and> swap_quotes [63, 8221] = [63, 8221] \<and>
   split_into_sentences (8220 # str ''Hi!'' @ [8221]) = Some [8220 # str ''Hi!'', [8221]] \<and>
   split_into_sentences (8220 # str ''Hi?'' @ [8221]) = Some [8220 # str ''Hi?'', [8221]]"
proof -
  have 1: "split_into_sentences (34 # str ''Hi!'' @ [34]) = Some [34 # str ''Hi'' @ 34 # str ''!'']"
    by (subst no_dot_stages) (simp_all add: tail_evals)
  have 2: "split_into_sentences (8220 # str ''Hi.'' @ [8221])
      = Some [8220 # str ''Hi'' @ 8221 # str ''.'']"
    by (simp add: evals)
  have 3: "split_into_sentences (8220 # str ''Hi!'' @ [8221]) = Some [8220 # str ''Hi!'', [8221]]"
    by (subst no_dot_stages) (simp_all add: tail_evals)
  have 4: "split_into_sentences (8220 # str ''Hi?'' @ [8221]) = Some [8220 # str ''Hi?'', [8221]]"
    by (subst no_dot_stages) (simp_all add: tail_evals)
  have 5: "swap_quotes [33, 8221] = [33, 8221]" "swap_quotes [63, 8221] = [63, 8221]"
    by (simp_all add: swap_quotes_def str_def)
  from 1 2 3 4 5 show ?thesis by blast
qed




text \<open>
  C6: \<open>split_into_sentences("Dr. Smith arrived.")\<close> returns exactly one sentence, the
  text itself: the period behind the prefix \<open>Dr\<close> is protected and makes no boundary.
\<close>

theorem dr_smith_one_sentence:
  "split_into_sentences (str ''Dr. Smith arrived.'') = Some [str ''Dr. Smith arrived.'']"
  by (simp add: evals)

text \<open>
  C7: on the empty string \<open>split_into_sentences\<close> returns the empty list.
\<close>

theorem empty_string_no_sentence:
  "split_into_sentences [] = Some []"
  by (simp add: evals)

text \<open>
  C8: \<open>split_into_sentences\<close> returns a list of sentences for every text and raises no
  exception: every template refers to groups its pattern has, and every scan ends.
\<close>

theorem split_into_sentences_total:
  "\<exists>sentences. split_into_sentences text = Some sentences"
  by (simp add: split_into_sentences_stages)

text \<open>
  C9: for every text of whitespace characters only, the empty text among them, the
  result is empty: the only piece trims to the empty string and is dropped.
\<close>

theorem blank_text_no_sentence:
  assumes "\<forall>c \<in> set text. isspace c"
  shows "split_into_sentences text = Some []"
proof -
  have ns: "\<not> isspace 46" "\<not> isspace 33" "\<not> isspace 63" "\<not> isspace 60"
    by (simp_all add: isspace_def)
  with assms have p: "46 \<notin> set text" "33 \<notin> set text" "63 \<notin> set text" "60 \<notin> set text"
    by blast+
  have m: "\<not> contains (str ''<prd>'') text" "\<not> contains (str ''<stop>'') text"
    using p(4) by (simp_all add: contains_not_mem[of 60] str_def)
  have "isspace 32" by (simp add: isspace_def)
  with assms have "\<forall>c \<in> set (replace [10] (str '' '') text). isspace c"
    using replace_set[of "[10]" "str '' ''" "text"] by (auto simp: str_def)
  then have "strip (replace [10] (str '' '') text) = []" by (rule strip_blank)
  with plain_text[OF p(1-3) m] show ?thesis by simp
qed

theorem blank_text_no_sentence_witness:
  "isspace 32 \<and> isspace 10 \<and> isspace 9 \<and> isspace 160 \<and>
   split_into_sentences [32, 10, 9, 160] = Some []"
  using blank_text_no_sentence [of "[32, 10, 9, 160]"]
  by (simp add: isspace_def)

text \<open>
  C10: no sentence of the result holds a newline, whatever the text: every newline is
  replaced by a space first, and no later pass writes one.
\<close>

theorem sentences_no_newline:
  "\<exists>sentences. split_into_sentences text = Some sentences \<and> (\<forall>s \<in> set sentences. 10 \<notin> set s)"
proof -
  have 0: "10 \<notin> set (pad text)" using set_pad[of "text"] by auto
  have 1: "10 \<notin> set (run_passes passes_a (pad text))"
    using lits_no_newline 0 by (intro run_passes_avoid) auto
  have 2: "10 \<notin> set (phd (ellipsis (run_passes passes_a (pad text))))"
    using 1 by (intro phd_no_newline ellipsis_no_newline)
  have 3: "10 \<notin> set (run_passes passes_b (phd (ellipsis (run_passes passes_a (pad text)))))"
    using lits_no_newline 2 by (intro run_passes_avoid) auto
  have 4: "10 \<notin> set (mark (swap_quotes
     (run_passes passes_b (phd (ellipsis (run_passes passes_a (pad text)))))))"
    using 3 by (intro mark_no_newline swap_quotes_no_newline)
  show ?thesis
    unfolding split_into_sentences_stages using 4 finish_set by blast
qed

theorem sentences_no_newline_witness:
  "split_into_sentences (str ''a'' @ [10] @ str ''b'') = Some [str ''a b''] \<and>
   10 \<notin> set (str ''a b'')"
proof -
  have "split_into_sentences (str ''a'' @ [10] @ str ''b'') = Some [str ''a b'']"
    by (subst no_dot_stages) (simp_all add: tail_evals)
  with sentences_no_newline [of "str ''a'' @ [10] @ str ''b''"] show ?thesis
    by (auto simp: str_def)
qed

end
